theory Spec2Isabelle
  imports Main "HOL-Library.Word"
begin

section \<open>The Dapp Punks NFT contract (contracts/NFT.sol)\<close>

text \<open>
  The contract is compiled with \<^verbatim>\<open>pragma solidity ^0.8.0\<close>: every \<^verbatim>\<open>uint256\<close>
  is a 256-bit word, and \<^verbatim>\<open>+\<close>, \<^verbatim>\<open>*\<close> and \<^verbatim>\<open>++\<close> outside an \<^verbatim>\<open>unchecked\<close> block
  revert with an arithmetic panic instead of wrapping. A call that reverts leaves the
  contract storage, its ether balance and the event log as they were before the call.
\<close>

subsection \<open>Values, errors and events\<close>

type_synonym uint256 = "256 word"
type_synonym address = "160 word"

text \<open>
  One constructor per revert reason. The first six carry the reason strings of NFT.sol
  (\<^verbatim>\<open>"Minting not yet allowed"\<close>, \<^verbatim>\<open>"Must mint at least 1 NFT"\<close>,
  \<^verbatim>\<open>"Insufficient payment"\<close>, \<^verbatim>\<open>"Would exceed max supply"\<close>, \<^verbatim>\<open>'Token does not exist'\<close>,
  \<^verbatim>\<open>"Withdrawal failed"\<close>); \<open>Panic_overflow\<close> is the compiler's checked arithmetic,
  \<open>Panic_index\<close> its array bounds check; the remaining ones belong to the inherited
  token and ownership contracts.
\<close>

datatype error =
    Minting_not_yet_allowed
  | Must_mint_at_least_1_NFT
  | Insufficient_payment
  | Would_exceed_max_supply
  | Token_does_not_exist
  | Withdrawal_failed
  | Panic_overflow
  | Panic_index
  | Caller_is_not_the_owner
  | Token_already_minted
  | Owner_index_out_of_bounds

datatype event =
    Mint uint256 address
  | Withdraw uint256 address

subsection \<open>Checked arithmetic of Solidity 0.8\<close>

definition checked_add :: "uint256 \<Rightarrow> uint256 \<Rightarrow> error + uint256" where
  "checked_add a b =
     (if unat a + unat b < 2 ^ 256 then Inr (a + b) else Inl Panic_overflow)"

definition checked_mul :: "uint256 \<Rightarrow> uint256 \<Rightarrow> error + uint256" where
  "checked_mul a b =
     (if unat a * unat b < 2 ^ 256 then Inr (a * b) else Inl Panic_overflow)"

subsection \<open>Contract state\<close>

text \<open>
  The state variables of NFT.sol (\<open>baseURI\<close>, \<open>baseExtension\<close>, \<open>cost\<close>, \<open>maxSupply\<close>,
  \<open>allowMintingOn\<close>), the state of the two inherited contracts (\<open>name\<close>, \<open>symbol\<close>,
  \<open>owners\<close>, \<open>ownedTokens\<close>, \<open>totalIssued\<close> for the enumerable token; \<open>owner\<close> for the
  access control), the contract account's ether \<open>balance\<close>, and what the contract has
  sent out of it: the \<open>events\<close> it emitted and the ether \<open>payouts\<close> it made.
\<close>

record nft =
  name :: string
  symbol :: string
  baseURI :: string
  baseExtension :: string
  cost :: uint256
  maxSupply :: uint256
  allowMintingOn :: uint256
  owners :: "uint256 \<rightharpoonup> address"
  ownedTokens :: "address \<Rightarrow> uint256 list"
  totalIssued :: uint256
  owner :: address
  balance :: uint256
  events :: "event list"
  payouts :: "(address \<times> uint256) list"

subsection \<open>The inherited contracts\<close>

text \<open>
  NFT.sol imports \<^verbatim>\<open>./ERC721Enumerable.sol\<close> and \<^verbatim>\<open>./Ownable.sol\<close>; neither file is among
  the sources. The definitions of this subsection stand for the functions NFT.sol calls
  from them.
\<close>

text \<open>
  Modelled from the spec: \<^verbatim>\<open>totalSupply()\<close> of ERC721Enumerable.sol is missing. The spec
  calls it \<open>totalIssued\<close>, a "monotonically increasing counter of tokens issued so far;
  starts at 0", with "exactly \<open>totalIssued\<close> of them exist at any moment".
\<close>

definition totalSupply :: "nft \<Rightarrow> uint256" where
  "totalSupply s = totalIssued s"

text \<open>
  Modelled from the spec: \<^verbatim>\<open>_exists(tokenId)\<close> of the inherited token contract is missing.
  The spec keeps "an id\<rightarrow>owner mapping"; a token exists when an owner is recorded for it.
\<close>

definition exists :: "nft \<Rightarrow> uint256 \<Rightarrow> bool" where
  "exists s tokenId = (owners s tokenId \<noteq> None)"

text \<open>
  Modelled from the spec: \<^verbatim>\<open>_safeMint(to, tokenId)\<close> of the inherited token contract is
  missing. The spec: "issue a new token with \<open>id\<close> to \<open>callerAccount\<close>", ids are "never
  reused, never reassigned", and the ledger keeps "an id\<rightarrow>owner mapping plus an
  owner\<rightarrow>ordered-id-list mapping kept consistent under issuance". NFT.sol never writes
  the supply itself, so issuing one token is also what advances the counter that
  \<open>totalSupply\<close> reads. The callback into a receiving contract, which the spec does not
  describe, is not modelled.
\<close>

definition safeMint :: "nft \<Rightarrow> address \<Rightarrow> uint256 \<Rightarrow> error + nft" where
  "safeMint s to tokenId =
     (if exists s tokenId then Inl Token_already_minted
      else Inr (s\<lparr>owners := (owners s)(tokenId \<mapsto> to),
                 ownedTokens := (ownedTokens s)(to := ownedTokens s to @ [tokenId]),
                 totalIssued := totalIssued s + 1\<rparr>))"

text \<open>
  Modelled from the spec: \<^verbatim>\<open>balanceOf(owner)\<close> is missing. The spec lists the
  "ownership-count per account" among the "simple field reads" that "always succeed".
\<close>

definition balanceOf :: "nft \<Rightarrow> address \<Rightarrow> uint256" where
  "balanceOf s a = word_of_nat (length (ownedTokens s a))"

text \<open>
  Modelled from the spec: \<^verbatim>\<open>tokenOfOwnerByIndex(owner, index)\<close> is missing. The spec speaks
  of "the owner's internal enumeration index" into the owner's ordered id list; an index
  at or beyond the owner's count is rejected.
\<close>

definition tokenOfOwnerByIndex :: "nft \<Rightarrow> address \<Rightarrow> uint256 \<Rightarrow> error + uint256" where
  "tokenOfOwnerByIndex s a index =
     (if index < balanceOf s a then Inr (ownedTokens s a ! unat index)
      else Inl Owner_index_out_of_bounds)"

text \<open>
  Modelled from the spec: the \<^verbatim>\<open>onlyOwner\<close> modifier of Ownable.sol is missing. The spec:
  the call "fails with \<open>Unauthorized\<close> unless \<open>callerAccount == ownerAccount\<close>".
\<close>

definition onlyOwner :: "nft \<Rightarrow> address \<Rightarrow> (nft \<Rightarrow> error + nft) \<Rightarrow> error + nft" where
  "onlyOwner s msg_sender body =
     (if owner s = msg_sender then body s else Inl Caller_is_not_the_owner)"

text \<open>
  Modelled from the spec: \<^verbatim>\<open>Strings.toString(uint256)\<close>, which NFT.sol attaches to
  \<^verbatim>\<open>uint256\<close> with \<^verbatim>\<open>using Strings for uint256\<close>, is missing. The spec calls it
  \<open>decimalStringOf(id)\<close>: the decimal digits of the number, most significant first,
  a single \<^verbatim>\<open>0\<close> for zero. \<open>digit_char\<close> is the character of one digit and
  \<open>decimal\<close> the digit string of a natural number.
\<close>

definition digit_char :: "nat \<Rightarrow> char" where
  "digit_char d = ''0123456789'' ! d"

fun decimal :: "nat \<Rightarrow> string" where
  "decimal n = (if n < 10 then [digit_char n] else decimal (n div 10) @ [digit_char (n mod 10)])"

definition toString :: "uint256 \<Rightarrow> string" where
  "toString v = decimal (unat v)"

text \<open>Reading a digit string back, to say what "decimal representation" means.\<close>

definition digit_value :: "char \<Rightarrow> nat" where
  "digit_value c = of_char c - 48"

definition decimal_value :: "string \<Rightarrow> nat" where
  "decimal_value cs = foldl (\<lambda>acc c. 10 * acc + digit_value c) 0 cs"

subsection \<open>constructor\<close>

text \<open>
  \<^verbatim>\<open>constructor(_name, _symbol, _cost, _maxSupply, _allowMintingOn, _baseURI)\<close>, called by
  \<open>msg_sender\<close>: the four assignments of NFT.sol, the initialiser \<^verbatim>\<open>baseExtension = ".json"\<close>,
  an empty token ledger, and the deployer as owner.
\<close>

definition constructor ::
  "address \<Rightarrow> string \<Rightarrow> string \<Rightarrow> uint256 \<Rightarrow> uint256 \<Rightarrow> uint256 \<Rightarrow> string \<Rightarrow> nft" where
  "constructor msg_sender n sy c m a b =
     \<lparr>name = n, symbol = sy, baseURI = b, baseExtension = ''.json'',
      cost = c, maxSupply = m, allowMintingOn = a,
      owners = Map.empty, ownedTokens = (\<lambda>_. []), totalIssued = 0,
      owner = msg_sender, balance = 0, events = [], payouts = []\<rparr>"

subsection \<open>mint\<close>

text \<open>
  The loop \<^verbatim>\<open>for(uint256 i = 1; i <= _mintAmount; i++) _safeMint(msg.sender, supply + i)\<close>.
  Both \<^verbatim>\<open>supply + i\<close> and \<^verbatim>\<open>i++\<close> are checked.
\<close>

function mint_loop :: "nft \<Rightarrow> address \<Rightarrow> uint256 \<Rightarrow> uint256 \<Rightarrow> uint256 \<Rightarrow> error + nft" where
  "mint_loop s msg_sender supply mintAmount i =
     (if i \<le> mintAmount then
        (case checked_add supply i of
           Inl e \<Rightarrow> Inl e
         | Inr tokenId \<Rightarrow>
             (case safeMint s msg_sender tokenId of
                Inl e \<Rightarrow> Inl e
              | Inr s' \<Rightarrow>
                  (if unat i + 1 < 2 ^ 256
                   then mint_loop s' msg_sender supply mintAmount (i + 1)
                   else Inl Panic_overflow)))
      else Inr s)"
  by pat_completeness auto
termination
  apply (relation "measure (\<lambda>(s, msg_sender, supply, mintAmount, i). Suc (unat mintAmount) - unat i)")
   apply simp
  apply (simp add: unat_word_ariths word_le_nat_alt)
  done

text \<open>
  \<^verbatim>\<open>function mint(uint256 _mintAmount) public payable\<close>, called by \<open>msg_sender\<close> with
  \<open>msg_value\<close> wei in a block stamped \<open>block_timestamp\<close>. The function is payable: the
  value is credited to the contract's balance when the call is entered and stays there
  unless the call reverts.
\<close>

definition mint :: "nft \<Rightarrow> address \<Rightarrow> uint256 \<Rightarrow> uint256 \<Rightarrow> uint256 \<Rightarrow> error + nft" where
  "mint s0 msg_sender msg_value block_timestamp mintAmount =
     (let s = s0\<lparr>balance := balance s0 + msg_value\<rparr> in
      if \<not> block_timestamp \<ge> allowMintingOn s then Inl Minting_not_yet_allowed
      else if \<not> mintAmount > 0 then Inl Must_mint_at_least_1_NFT
      else
        (case checked_mul (cost s) mintAmount of
           Inl e \<Rightarrow> Inl e
         | Inr price \<Rightarrow>
             if \<not> msg_value \<ge> price then Inl Insufficient_payment
             else
               (let supply = totalSupply s in
                case checked_add supply mintAmount of
                  Inl e \<Rightarrow> Inl e
                | Inr wanted \<Rightarrow>
                    if \<not> wanted \<le> maxSupply s then Inl Would_exceed_max_supply
                    else
                      (case mint_loop s msg_sender supply mintAmount 1 of
                         Inl e \<Rightarrow> Inl e
                       | Inr s' \<Rightarrow> Inr (s'\<lparr>events := events s' @ [Mint mintAmount msg_sender]\<rparr>)))))"

subsection \<open>tokenURI\<close>

text \<open>
  \<^verbatim>\<open>require(_exists(_tokenId), 'Token does not exist')\<close>, then
  \<^verbatim>\<open>abi.encodePacked(baseURI, _tokenId.toString(), baseExtension)\<close>. A view function: it
  returns a value and no state.
\<close>

definition tokenURI :: "nft \<Rightarrow> uint256 \<Rightarrow> error + string" where
  "tokenURI s tokenId =
     (if \<not> exists s tokenId then Inl Token_does_not_exist
      else Inr (baseURI s @ toString tokenId @ baseExtension s))"

subsection \<open>walletOfOwner\<close>

text \<open>
  The loop \<^verbatim>\<open>for(uint256 i; i < ownerTokenCount; i++) tokenIds[i] = tokenOfOwnerByIndex(_owner, i)\<close>.
  The store into the memory array is bounds-checked and \<^verbatim>\<open>i++\<close> is checked.
\<close>

function walletOfOwner_loop ::
  "nft \<Rightarrow> address \<Rightarrow> uint256 \<Rightarrow> uint256 list \<Rightarrow> uint256 \<Rightarrow> error + uint256 list" where
  "walletOfOwner_loop s a ownerTokenCount tokenIds i =
     (if i < ownerTokenCount then
        (case tokenOfOwnerByIndex s a i of
           Inl e \<Rightarrow> Inl e
         | Inr tokenId \<Rightarrow>
             (if \<not> unat i < length tokenIds then Inl Panic_index
              else if unat i + 1 < 2 ^ 256
              then walletOfOwner_loop s a ownerTokenCount (tokenIds[unat i := tokenId]) (i + 1)
              else Inl Panic_overflow))
      else Inr tokenIds)"
  by pat_completeness auto
termination
  apply (relation "measure (\<lambda>(s, a, ownerTokenCount, tokenIds, i). unat ownerTokenCount - unat i)")
   apply simp
  apply (simp add: unat_word_ariths word_less_nat_alt)
  done

text \<open>
  \<^verbatim>\<open>function walletOfOwner(address _owner) public view returns(uint256[] memory)\<close>:
  \<^verbatim>\<open>new uint256[](ownerTokenCount)\<close> is an array of that many zeros.
\<close>

definition walletOfOwner :: "nft \<Rightarrow> address \<Rightarrow> error + uint256 list" where
  "walletOfOwner s a =
     (let ownerTokenCount = balanceOf s a;
          tokenIds = replicate (unat ownerTokenCount) 0
      in walletOfOwner_loop s a ownerTokenCount tokenIds 0)"

subsection \<open>withdraw and setCost\<close>

text \<open>
  \<^verbatim>\<open>function withdraw() public onlyOwner\<close>. The low-level call
  \<^verbatim>\<open>payable(msg.sender).call{value: balance}("")\<close> hands control to the recipient;
  \<open>success\<close> is what the recipient makes it return. When it returns true the ether has
  left the contract; when it returns false nothing was sent and the \<^verbatim>\<open>require\<close> reverts.
\<close>

definition withdraw :: "nft \<Rightarrow> address \<Rightarrow> bool \<Rightarrow> error + nft" where
  "withdraw s0 msg_sender success =
     onlyOwner s0 msg_sender (\<lambda>s.
       let amount = balance s in
       if \<not> success then Inl Withdrawal_failed
       else Inr (s\<lparr>balance := balance s - amount,
                  payouts := payouts s @ [(msg_sender, amount)],
                  events := events s @ [Withdraw amount msg_sender]\<rparr>))"

text \<open>\<^verbatim>\<open>function setCost(uint256 _newCost) public onlyOwner { cost = _newCost; }\<close>\<close>

definition setCost :: "nft \<Rightarrow> address \<Rightarrow> uint256 \<Rightarrow> error + nft" where
  "setCost s0 msg_sender newCost =
     onlyOwner s0 msg_sender (\<lambda>s. Inr (s\<lparr>cost := newCost\<rparr>))"

subsection \<open>Transactions\<close>

text \<open>
  The state-changing entry points of NFT.sol with their arguments: \<open>Call_mint msg_sender
  msg_value block_timestamp mintAmount\<close>, \<open>Call_withdraw msg_sender success\<close> and
  \<open>Call_setCost msg_sender newCost\<close>. A transaction that reverts commits nothing, so the
  state after it is the state before it. The transfer, approval and ownership-transfer
  entry points of the inherited contracts are not among the calls.
\<close>

datatype call =
    Call_mint address uint256 uint256 uint256
  | Call_withdraw address bool
  | Call_setCost address uint256

fun dispatch :: "nft \<Rightarrow> call \<Rightarrow> error + nft" where
  "dispatch s (Call_mint msg_sender msg_value block_timestamp mintAmount) =
     mint s msg_sender msg_value block_timestamp mintAmount"
| "dispatch s (Call_withdraw msg_sender success) = withdraw s msg_sender success"
| "dispatch s (Call_setCost msg_sender newCost) = setCost s msg_sender newCost"

definition exec :: "nft \<Rightarrow> call \<Rightarrow> nft" where
  "exec s c = (case dispatch s c of Inl e \<Rightarrow> s | Inr s' \<Rightarrow> s')"

definition run :: "nft \<Rightarrow> call list \<Rightarrow> nft" where
  "run s cs = foldl exec s cs"

text \<open>The two macro-states of the time gate, read off the first check of \<open>mint\<close>.\<close>

datatype gate = PreOpen | Open

definition gate_at :: "nft \<Rightarrow> uint256 \<Rightarrow> gate" where
  "gate_at s block_timestamp = (if block_timestamp \<ge> allowMintingOn s then Open else PreOpen)"

subsection \<open>Auxiliary notions for the proofs\<close>

text \<open>
  \<open>issue s to ids\<close> is the ledger \<open>s\<close> after the tokens \<open>ids\<close> have been issued to \<open>to\<close>
  one after the other; \<open>ids_from supply i n\<close> are the ids \<open>supply + i, \<dots>, supply + n\<close>
  that the loop of \<open>mint\<close> walks through.
\<close>

definition issue :: "nft \<Rightarrow> address \<Rightarrow> uint256 list \<Rightarrow> nft" where
  "issue s to ids =
     s\<lparr>owners := (\<lambda>tokenId. if tokenId \<in> set ids then Some to else owners s tokenId),
       ownedTokens := (ownedTokens s)(to := ownedTokens s to @ ids),
       totalIssued := totalIssued s + word_of_nat (length ids)\<rparr>"

definition ids_from :: "uint256 \<Rightarrow> nat \<Rightarrow> nat \<Rightarrow> uint256 list" where
  "ids_from supply i n = map (\<lambda>k. supply + word_of_nat k) [i ..< Suc n]"

text \<open>
  The ledger invariant: the issued ids are exactly \<open>1, \<dots>, totalIssued\<close>, the supply
  stays within \<open>maxSupply\<close>, and each account's enumeration lists exactly the tokens it
  owns, in ascending order and without exceeding the supply in length.
\<close>

definition ledger_inv :: "nft \<Rightarrow> bool" where
  "ledger_inv s \<longleftrightarrow>
     (\<forall>tokenId. owners s tokenId \<noteq> None \<longleftrightarrow> 0 < tokenId \<and> tokenId \<le> totalIssued s) \<and>
     totalIssued s \<le> maxSupply s \<and>
     (\<forall>a. set (ownedTokens s a) = {tokenId. owners s tokenId = Some a}) \<and>
     (\<forall>a. sorted_wrt (<) (ownedTokens s a)) \<and>
     (\<forall>a. length (ownedTokens s a) \<le> unat (totalIssued s))"

text \<open>The fields that no call writes.\<close>

definition same_config :: "nft \<Rightarrow> nft \<Rightarrow> bool" where
  "same_config s s' \<longleftrightarrow> name s' = name s \<and> symbol s' = symbol s \<and> baseURI s' = baseURI s \<and>
     baseExtension s' = baseExtension s \<and> maxSupply s' = maxSupply s \<and>
     allowMintingOn s' = allowMintingOn s \<and> owner s' = owner s"

text \<open>
  The deployment of the repository's tests and of the spec's scenarios: owner account
  \<open>1\<close>, \<^verbatim>\<open>NAME = 'Dapp Punks'\<close>, \<^verbatim>\<open>SYMBOL = 'DP'\<close>, a unit cost of 10,
  \<^verbatim>\<open>MAX_SUPPLY = 25\<close>, minting allowed from \<open>opens\<close> on.
\<close>

definition scenario :: "uint256 \<Rightarrow> nft" where
  "scenario opens = constructor 1 ''Dapp Punks'' ''DP'' 10 25 opens ''ipfs://punks/''"

section \<open>Lemmas\<close>

declare mint_loop.simps [simp del] walletOfOwner_loop.simps [simp del] decimal.simps [simp del]

subsection \<open>Checked arithmetic\<close>

lemma checked_add_Inr:
  "checked_add a b = Inr c \<longleftrightarrow> unat a + unat b < 2 ^ 256 \<and> c = a + b"
  by (auto simp: checked_add_def)

lemma checked_add_Inl:
  "checked_add a b = Inl e \<longleftrightarrow> \<not> unat a + unat b < 2 ^ 256 \<and> e = Panic_overflow"
  by (auto simp: checked_add_def)

lemma checked_mul_Inr:
  "checked_mul a b = Inr c \<longleftrightarrow> unat a * unat b < 2 ^ 256 \<and> c = a * b"
  by (auto simp: checked_mul_def)

lemma checked_mul_Inl:
  "checked_mul a b = Inl e \<longleftrightarrow> \<not> unat a * unat b < 2 ^ 256 \<and> e = Panic_overflow"
  by (auto simp: checked_mul_def)

lemma unat_add_exact:
  fixes a b :: uint256
  shows "unat a + unat b < 2 ^ 256 \<Longrightarrow> unat (a + b) = unat a + unat b"
  by (simp add: unat_word_ariths)

lemma unat_mul_exact:
  fixes a b :: uint256
  shows "unat a * unat b < 2 ^ 256 \<Longrightarrow> unat (a * b) = unat a * unat b"
  by (simp add: unat_word_ariths)

lemma unat_lt_2p256: "unat (a :: uint256) < 2 ^ 256"
  using unsigned_less [of a] by simp

subsection \<open>The loop of mint issues a run of ids\<close>

lemma issue_Nil: "issue s to [] = s"
  by (simp add: issue_def)

lemma safeMint_Inr:
  "safeMint s to tokenId = Inr s' \<longleftrightarrow> owners s tokenId = None \<and> s' = issue s to [tokenId]"
  by (auto simp: safeMint_def exists_def issue_def fun_eq_iff intro!: nft.equality)

lemma issue_issue:
  "issue (issue s to xs) to ys = issue s to (xs @ ys)"
  by (auto simp: issue_def fun_eq_iff intro!: nft.equality)

lemma ids_from_step: "i \<le> n \<Longrightarrow> ids_from supply i n = (supply + word_of_nat i) # ids_from supply (Suc i) n"
proof -
  assume "i \<le> n"
  then have "[i ..< Suc n] = i # [Suc i ..< Suc n]"
    by (metis upt_conv_Cons le_imp_less_Suc)
  then show ?thesis
    unfolding ids_from_def by (simp only: list.map)
qed

lemma ids_from_empty: "n < i \<Longrightarrow> ids_from supply i n = []"
  by (simp add: ids_from_def)

lemma mint_loop_Inr:
  "mint_loop s acct supply mintAmount i = Inr s' \<Longrightarrow>
     s' = issue s acct (ids_from supply (unat i) (unat mintAmount)) \<and>
     (\<forall>tokenId \<in> set (ids_from supply (unat i) (unat mintAmount)). owners s tokenId = None) \<and>
     (i \<le> mintAmount \<longrightarrow> unat mintAmount + 1 < 2 ^ 256)"
proof (induction s acct "supply" mintAmount i arbitrary: s' rule: mint_loop.induct)
  case (1 s acct sup mintAmount i)
  show ?case
  proof (cases "i \<le> mintAmount")
    case False
    then have "s' = s" using "1.prems" by (simp add: mint_loop.simps)
    moreover have "unat mintAmount < unat i" using False by (simp add: word_le_nat_alt)
    ultimately show ?thesis using False by (simp add: ids_from_empty issue_Nil)
  next
    case True
    from "1.prems" True obtain s1 where
      ov: "unat sup + unat i < 2 ^ 256" and
      sm: "safeMint s acct (sup + i) = Inr s1" and
      nov: "unat i + 1 < 2 ^ 256" and
      rec: "mint_loop s1 acct sup mintAmount (i + 1) = Inr s'"
      by (auto simp: mint_loop.simps [of s] checked_add_def split: if_splits sum.splits)
    have ui: "unat (i + 1) = Suc (unat i)" using nov by (simp add: unat_word_ariths)
    have le: "unat i \<le> unat mintAmount" using True by (simp add: word_le_nat_alt)
    from sm have none: "owners s (sup + i) = None" and s1: "s1 = issue s acct [sup + i]"
      by (simp_all add: safeMint_Inr)
    have IH: "s' = issue s1 acct (ids_from sup (Suc (unat i)) (unat mintAmount)) \<and>
       (\<forall>tokenId \<in> set (ids_from sup (Suc (unat i)) (unat mintAmount)). owners s1 tokenId = None) \<and>
       (i + 1 \<le> mintAmount \<longrightarrow> unat mintAmount + 1 < 2 ^ 256)"
      using "1.IH" [OF True _ sm nov rec] ov ui by (simp add: checked_add_def)
    have step: "ids_from sup (unat i) (unat mintAmount) = (sup + i) # ids_from sup (Suc (unat i)) (unat mintAmount)"
      using ids_from_step [OF le, of sup] by simp
    have A: "s' = issue s acct (ids_from sup (unat i) (unat mintAmount))"
      using IH s1 step by (simp add: issue_issue)
    have B: "\<forall>tokenId \<in> set (ids_from sup (unat i) (unat mintAmount)). owners s tokenId = None"
    proof
      fix tokenId assume "tokenId \<in> set (ids_from sup (unat i) (unat mintAmount))"
      then consider "tokenId = sup + i" | "tokenId \<in> set (ids_from sup (Suc (unat i)) (unat mintAmount))"
        using step by auto
      then show "owners s tokenId = None"
      proof cases
        case 1 then show ?thesis using none by simp
      next
        case 2
        then have "owners s1 tokenId = None" using IH by blast
        then show ?thesis using s1 by (simp add: issue_def split: if_splits)
      qed
    qed
    have C: "unat mintAmount + 1 < 2 ^ 256"
    proof (cases "i + 1 \<le> mintAmount")
      case True then show ?thesis using IH by blast
    next
      case False
      then have "unat mintAmount < Suc (unat i)" using ui by (simp add: word_le_nat_alt)
      then show ?thesis using nov by simp
    qed
    show ?thesis using A B C by blast
  qed
qed

subsection \<open>The outcomes of mint\<close>

lemma mint_Inr:
  assumes "mint s acct v t q = Inr s'"
  shows "allowMintingOn s \<le> t \<and> 0 < q \<and>
         unat (cost s) * unat q \<le> unat v \<and>
         unat (totalIssued s) + unat q \<le> unat (maxSupply s) \<and>
         s' = (issue (s\<lparr>balance := balance s + v\<rparr>) acct (ids_from (totalIssued s) 1 (unat q)))
                \<lparr>events := events s @ [Mint q acct]\<rparr> \<and>
         (\<forall>tokenId \<in> set (ids_from (totalIssued s) 1 (unat q)). owners s tokenId = None)"
proof -
  let ?s = "s\<lparr>balance := balance s + v\<rparr>"
  from assms obtain s1 where
    t: "allowMintingOn s \<le> t" and q: "0 < q" and
    m: "unat (cost s) * unat q < 2 ^ 256" and p: "cost s * q \<le> v" and
    a: "unat (totalIssued s) + unat q < 2 ^ 256" and c: "totalIssued s + q \<le> maxSupply s" and
    l: "mint_loop ?s acct (totalIssued s) q 1 = Inr s1" and
    s': "s' = s1\<lparr>events := events s1 @ [Mint q acct]\<rparr>"
    by (auto simp: mint_def Let_def totalSupply_def checked_mul_def checked_add_def
             split: if_splits sum.splits)
  from mint_loop_Inr [OF l] have
    s1: "s1 = issue ?s acct (ids_from (totalIssued s) 1 (unat q))" and
    fresh: "\<forall>tokenId \<in> set (ids_from (totalIssued s) 1 (unat q)). owners s tokenId = None"
    by simp_all
  have "unat (cost s) * unat q \<le> unat v"
    using p m by (simp add: word_le_nat_alt unat_mul_exact)
  moreover have "unat (totalIssued s) + unat q \<le> unat (maxSupply s)"
    using c a by (simp add: word_le_nat_alt unat_add_exact)
  moreover have "s' = (issue ?s acct (ids_from (totalIssued s) 1 (unat q)))\<lparr>events := events s @ [Mint q acct]\<rparr>"
    using s' s1 by (simp add: issue_def)
  ultimately show ?thesis using t q fresh by blast
qed

lemma mint_too_early:
  "t < allowMintingOn s \<Longrightarrow> mint s acct v t q = Inl Minting_not_yet_allowed"
  by (simp add: mint_def Let_def not_le)

lemma mint_zero:
  "allowMintingOn s \<le> t \<Longrightarrow> mint s acct v t 0 = Inl Must_mint_at_least_1_NFT"
  by (simp add: mint_def Let_def)

lemma mint_mul_overflow:
  "allowMintingOn s \<le> t \<Longrightarrow> 0 < q \<Longrightarrow> \<not> unat (cost s) * unat q < 2 ^ 256 \<Longrightarrow>
   mint s acct v t q = Inl Panic_overflow"
  by (simp add: mint_def Let_def checked_mul_def)

lemma mint_underpaid:
  "allowMintingOn s \<le> t \<Longrightarrow> 0 < q \<Longrightarrow> unat (cost s) * unat q < 2 ^ 256 \<Longrightarrow>
   unat v < unat (cost s) * unat q \<Longrightarrow>
   mint s acct v t q = Inl Insufficient_payment"
  by (simp add: mint_def Let_def checked_mul_def word_le_nat_alt unat_mul_exact)

lemma mint_add_overflow:
  "allowMintingOn s \<le> t \<Longrightarrow> 0 < q \<Longrightarrow> unat (cost s) * unat q \<le> unat v \<Longrightarrow>
   \<not> unat (totalIssued s) + unat q < 2 ^ 256 \<Longrightarrow>
   mint s acct v t q = Inl Panic_overflow"
proof -
  assume a: "allowMintingOn s \<le> t" "0 < q" "unat (cost s) * unat q \<le> unat v"
     "\<not> unat (totalIssued s) + unat q < 2 ^ 256"
  have m: "unat (cost s) * unat q < 2 ^ 256"
    using a(3) unat_lt_2p256 [of v] by simp
  show ?thesis
    using a m by (simp add: mint_def Let_def checked_mul_def checked_add_def totalSupply_def word_le_nat_alt unat_mul_exact)
qed

lemma mint_over_supply:
  "allowMintingOn s \<le> t \<Longrightarrow> 0 < q \<Longrightarrow> unat (cost s) * unat q \<le> unat v \<Longrightarrow>
   unat (totalIssued s) + unat q < 2 ^ 256 \<Longrightarrow>
   unat (maxSupply s) < unat (totalIssued s) + unat q \<Longrightarrow>
   mint s acct v t q = Inl Would_exceed_max_supply"
proof -
  assume a: "allowMintingOn s \<le> t" "0 < q" "unat (cost s) * unat q \<le> unat v"
     "unat (totalIssued s) + unat q < 2 ^ 256" "unat (maxSupply s) < unat (totalIssued s) + unat q"
  have m: "unat (cost s) * unat q < 2 ^ 256"
    using a(3) unat_lt_2p256 [of v] by simp
  show ?thesis
    using a m by (simp add: mint_def Let_def checked_mul_def checked_add_def totalSupply_def word_le_nat_alt unat_mul_exact unat_add_exact)
qed

subsection \<open>The ids of one call\<close>

lemma unat_add_of_nat:
  fixes T :: uint256
  assumes "unat T + n < 2 ^ 256" "k \<le> n"
  shows "unat (T + word_of_nat k) = unat T + k"
proof -
  have "k < 2 ^ 256" using assms by simp
  then have "unat (word_of_nat k :: uint256) = k"
    by (simp add: unat_of_nat)
  then show ?thesis using assms by (simp add: unat_add_exact)
qed

lemma set_ids_from:
  fixes T :: uint256
  assumes "unat T + n < 2 ^ 256"
  shows "tokenId \<in> set (ids_from T 1 n) \<longleftrightarrow> unat T < unat tokenId \<and> unat tokenId \<le> unat T + n"
proof
  assume "tokenId \<in> set (ids_from T 1 n)"
  then obtain k where k: "1 \<le> k" "k \<le> n" "tokenId = T + word_of_nat k"
    by (auto simp: ids_from_def)
  then show "unat T < unat tokenId \<and> unat tokenId \<le> unat T + n"
    using unat_add_of_nat [OF assms k(2)] by simp
next
  assume a: "unat T < unat tokenId \<and> unat tokenId \<le> unat T + n"
  define k where "k = unat tokenId - unat T"
  have k: "1 \<le> k" "k \<le> n" using a unfolding k_def by linarith+
  have "unat (T + word_of_nat k) = unat tokenId"
    using unat_add_of_nat [OF assms k(2)] a by (simp add: k_def)
  then have "tokenId = T + word_of_nat k" by (simp add: word_unat_eq_iff)
  moreover have "k \<in> set [1 ..< Suc n]" using k by (simp del: upt_Suc)
  ultimately show "tokenId \<in> set (ids_from T 1 n)"
    unfolding ids_from_def by (metis (no_types, lifting) image_eqI set_map)
qed

lemma length_ids_from: "length (ids_from T i n) = Suc n - i"
  by (simp add: ids_from_def del: upt_Suc)

lemma sorted_ids_from:
  fixes T :: uint256
  assumes "unat T + n < 2 ^ 256"
  shows "sorted_wrt (<) (ids_from T i n)"
proof -
  have "\<And>a b. a < b \<Longrightarrow> b \<le> n \<Longrightarrow> T + word_of_nat a < T + word_of_nat b"
  proof -
    fix a b :: nat assume ab: "a < b" "b \<le> n"
    then have "unat (T + word_of_nat a) = unat T + a" "unat (T + word_of_nat b) = unat T + b"
      using unat_add_of_nat [OF assms, of a] unat_add_of_nat [OF assms, of b] by simp_all
    then show "T + word_of_nat a < T + word_of_nat b"
      using ab by (simp add: word_less_nat_alt)
  qed
  then have "\<And>a b. a \<in> set [i ..< Suc n] \<Longrightarrow> b \<in> set [i ..< Suc n] \<Longrightarrow> a < b \<Longrightarrow>
      T + word_of_nat a < T + word_of_nat b"
    by (simp del: upt_Suc)
  then show ?thesis
    unfolding ids_from_def
    by (rule sorted_wrt_map_mono [OF sorted_wrt_upt])
qed

subsection \<open>The ledger invariant is kept\<close>

lemma ledger_inv_constructor: "ledger_inv (constructor d n sy c m a b)"
  by (auto simp: ledger_inv_def constructor_def word_le_nat_alt word_less_nat_alt)

lemma ledger_inv_mint:
  assumes inv: "ledger_inv s" and ok: "mint s acct v t q = Inr s'"
  shows "ledger_inv s'"
proof -
  let ?T = "totalIssued s" and ?n = "unat q"
  let ?ids = "ids_from (totalIssued s) 1 (unat q)"
  from mint_Inr [OF ok] have
    cap: "unat ?T + ?n \<le> unat (maxSupply s)" and
    s': "s' = (issue (s\<lparr>balance := balance s + v\<rparr>) acct ?ids)\<lparr>events := events s @ [Mint q acct]\<rparr>" and
    fresh: "\<forall>tokenId \<in> set ?ids. owners s tokenId = None"
    by simp_all
  have nov: "unat ?T + ?n < 2 ^ 256"
    using cap unat_lt_2p256 [of "maxSupply s"] by simp
  have mem: "\<And>tokenId. tokenId \<in> set ?ids \<longleftrightarrow> unat ?T < unat tokenId \<and> unat tokenId \<le> unat ?T + ?n"
    by (rule set_ids_from [OF nov])
  have T': "totalIssued s' = ?T + q" and own': "\<And>tokenId. owners s' tokenId = (if tokenId \<in> set ?ids then Some acct else owners s tokenId)"
    and ot': "\<And>a. ownedTokens s' a = (if a = acct then ownedTokens s acct @ ?ids else ownedTokens s a)"
    and mx': "maxSupply s' = maxSupply s"
    by (simp_all add: s' issue_def length_ids_from)
  have uT': "unat (totalIssued s') = unat ?T + ?n"
    using nov by (simp add: T' unat_add_exact)
  from inv have
    i1: "\<And>tokenId. owners s tokenId \<noteq> None \<longleftrightarrow> 0 < unat tokenId \<and> unat tokenId \<le> unat ?T" and
    i3: "\<And>a. set (ownedTokens s a) = {tokenId. owners s tokenId = Some a}" and
    i4: "\<And>a. sorted_wrt (<) (ownedTokens s a)" and
    i5: "\<And>a. length (ownedTokens s a) \<le> unat ?T"
    by (simp_all add: ledger_inv_def word_le_nat_alt word_less_nat_alt)
  have g1: "\<forall>tokenId. owners s' tokenId \<noteq> None \<longleftrightarrow> 0 < tokenId \<and> tokenId \<le> totalIssued s'"
  proof
    fix tokenId
    show "owners s' tokenId \<noteq> None \<longleftrightarrow> 0 < tokenId \<and> tokenId \<le> totalIssued s'"
      using i1 [of tokenId] mem [of tokenId] uT'
      by (auto simp: own' word_le_nat_alt word_less_nat_alt)
  qed
  have g2: "totalIssued s' \<le> maxSupply s'"
    using cap uT' by (simp add: mx' word_le_nat_alt)
  have g3: "\<forall>a. set (ownedTokens s' a) = {tokenId. owners s' tokenId = Some a}"
  proof
    fix a
    show "set (ownedTokens s' a) = {tokenId. owners s' tokenId = Some a}"
      using i3 [of a] fresh by (auto simp: own' ot')
  qed
  have g4: "\<forall>a. sorted_wrt (<) (ownedTokens s' a)"
  proof
    fix a
    have "\<forall>x \<in> set (ownedTokens s acct). \<forall>y \<in> set ?ids. x < y"
    proof (intro ballI)
      fix x y assume x: "x \<in> set (ownedTokens s acct)" and y: "y \<in> set ?ids"
      from x have "owners s x \<noteq> None" using i3 [of acct] by auto
      then have "unat x \<le> unat ?T" using i1 [of x] by simp
      moreover have "unat ?T < unat y" using y mem [of y] by simp
      ultimately show "x < y" by (simp add: word_less_nat_alt)
    qed
    then show "sorted_wrt (<) (ownedTokens s' a)"
      using i4 sorted_ids_from [OF nov, of 1] by (simp add: ot' sorted_wrt_append)
  qed
  have g5: "\<forall>a. length (ownedTokens s' a) \<le> unat (totalIssued s')"
  proof
    fix a
    show "length (ownedTokens s' a) \<le> unat (totalIssued s')"
      using i5 [of a] i5 [of acct] by (simp add: ot' uT' length_ids_from)
  qed
  show ?thesis
    unfolding ledger_inv_def using g1 g2 g3 g4 g5 by blast
qed

lemma withdraw_Inr:
  "withdraw s acct success = Inr s' \<longleftrightarrow>
     owner s = acct \<and> success \<and>
     s' = s\<lparr>balance := 0, payouts := payouts s @ [(acct, balance s)],
            events := events s @ [Withdraw (balance s) acct]\<rparr>"
  by (auto simp: withdraw_def onlyOwner_def Let_def)

lemma setCost_Inr:
  "setCost s acct newCost = Inr s' \<longleftrightarrow> owner s = acct \<and> s' = s\<lparr>cost := newCost\<rparr>"
  by (auto simp: setCost_def onlyOwner_def)

lemma ledger_inv_exec: "ledger_inv s \<Longrightarrow> ledger_inv (exec s c)"
proof (cases c)
  case (Call_mint acct v t q)
  assume "ledger_inv s"
  then show ?thesis
    using ledger_inv_mint [of s acct v t q] Call_mint
    by (simp add: exec_def split: sum.splits)
next
  case (Call_withdraw acct success)
  assume "ledger_inv s"
  then show ?thesis
    using Call_withdraw by (auto simp: exec_def withdraw_Inr ledger_inv_def split: sum.splits)
next
  case (Call_setCost acct newCost)
  assume "ledger_inv s"
  then show ?thesis
    using Call_setCost by (auto simp: exec_def setCost_Inr ledger_inv_def split: sum.splits)
qed

lemma ledger_inv_run: "ledger_inv s \<Longrightarrow> ledger_inv (run s cs)"
  unfolding run_def by (induction cs arbitrary: s) (simp_all add: ledger_inv_exec)

subsection \<open>Fields fixed at deployment\<close>

lemma same_config_exec: "same_config s (exec s c)"
proof (cases c)
  case (Call_mint acct v t q)
  show ?thesis
  proof (cases "mint s acct v t q")
    case (Inl e) then show ?thesis using Call_mint by (simp add: exec_def same_config_def)
  next
    case (Inr s')
    from mint_Inr [OF Inr] show ?thesis using Call_mint Inr by (simp add: exec_def same_config_def issue_def)
  qed
next
  case (Call_withdraw acct success)
  then show ?thesis by (auto simp: exec_def withdraw_Inr same_config_def split: sum.splits)
next
  case (Call_setCost acct newCost)
  then show ?thesis by (auto simp: exec_def setCost_Inr same_config_def split: sum.splits)
qed

lemma same_config_run: "same_config s (run s cs)"
proof (induction cs arbitrary: s)
  case Nil show ?case by (simp add: run_def same_config_def)
next
  case (Cons c cs)
  have "same_config s (exec s c)" by (rule same_config_exec)
  moreover have "same_config (exec s c) (run (exec s c) cs)" by (rule Cons.IH)
  ultimately show ?case by (simp add: run_def same_config_def)
qed

subsection \<open>The loop of walletOfOwner copies the enumeration\<close>

lemma unat_of_nat_small: "n < 2 ^ 256 \<Longrightarrow> unat (word_of_nat n :: uint256) = n"
  by (simp add: unat_of_nat)

lemma walletOfOwner_loop_copy:
  assumes "length (ownedTokens s a) < 2 ^ 256"
    and "length tokenIds = length (ownedTokens s a)"
    and "unat i \<le> length (ownedTokens s a)"
  shows "walletOfOwner_loop s a (balanceOf s a) tokenIds i =
           Inr (take (unat i) tokenIds @ drop (unat i) (ownedTokens s a))"
  using assms
proof (induction "length (ownedTokens s a) - unat i" arbitrary: i tokenIds)
  case 0
  then have eq: "unat i = length (ownedTokens s a)" by simp
  then have "\<not> i < balanceOf s a"
    using 0 by (simp add: balanceOf_def word_less_nat_alt unat_of_nat_small)
  then show ?case using eq 0 by (simp add: walletOfOwner_loop.simps [of s a _ tokenIds i])
next
  case (Suc d)
  let ?xs = "ownedTokens s a" and ?k = "unat i"
  have lt: "?k < length ?xs" using Suc.hyps(2) by simp
  have cnt: "unat (balanceOf s a) = length ?xs"
    using Suc.prems(1) by (simp add: balanceOf_def unat_of_nat_small)
  have c1: "i < balanceOf s a" using lt cnt by (simp add: word_less_nat_alt)
  have c2: "tokenOfOwnerByIndex s a i = Inr (?xs ! ?k)" using c1 by (simp add: tokenOfOwnerByIndex_def)
  have c3: "?k < length tokenIds" using lt Suc.prems(2) by simp
  have c4: "?k + 1 < 2 ^ 256" using lt Suc.prems(1) by simp
  have ui: "unat (i + 1) = Suc ?k" using c4 by (simp add: unat_word_ariths)
  have IH: "walletOfOwner_loop s a (balanceOf s a) (tokenIds[?k := ?xs ! ?k]) (i + 1) =
     Inr (take (unat (i + 1)) (tokenIds[?k := ?xs ! ?k]) @ drop (unat (i + 1)) ?xs)"
  proof (rule Suc.hyps(1))
    show "d = length ?xs - unat (i + 1)" using Suc.hyps(2) ui by simp
    show "length ?xs < 2 ^ 256" by (rule Suc.prems(1))
    show "length (tokenIds[?k := ?xs ! ?k]) = length ?xs" using Suc.prems(2) by simp
    show "unat (i + 1) \<le> length ?xs" using ui lt by simp
  qed
  have "take (Suc ?k) (tokenIds[?k := ?xs ! ?k]) = take ?k tokenIds @ [?xs ! ?k]"
    using c3 by (simp add: take_Suc_conv_app_nth)
  moreover have "drop ?k ?xs = ?xs ! ?k # drop (Suc ?k) ?xs"
    using lt by (simp add: Cons_nth_drop_Suc)
  ultimately have "take (unat (i + 1)) (tokenIds[?k := ?xs ! ?k]) @ drop (unat (i + 1)) ?xs =
      take ?k tokenIds @ drop ?k ?xs"
    by (simp add: ui)
  then show ?case
    using c1 c2 c3 c4 IH by (simp add: walletOfOwner_loop.simps [of s a _ tokenIds i])
qed

lemma walletOfOwner_eq:
  assumes "length (ownedTokens s a) < 2 ^ 256"
  shows "walletOfOwner s a = Inr (ownedTokens s a)"
proof -
  have cnt: "unat (balanceOf s a) = length (ownedTokens s a)"
    using assms by (simp add: balanceOf_def unat_of_nat_small)
  show ?thesis
    unfolding walletOfOwner_def Let_def
    using walletOfOwner_loop_copy [OF assms, of "replicate (unat (balanceOf s a)) 0" 0] cnt
    by simp
qed

subsection \<open>Decimal digits\<close>

lemma digit_value_digit_char: "d < 10 \<Longrightarrow> digit_value (digit_char d) = d"
proof -
  assume "d < 10"
  then have "d \<in> {0, 1, 2, 3, 4, 5, 6, 7, 8, 9}" by auto
  then show ?thesis
    by (auto simp: digit_value_def digit_char_def)
qed

lemma decimal_value_snoc:
  "decimal_value (cs @ [c]) = 10 * decimal_value cs + digit_value c"
  by (simp add: decimal_value_def)

lemma decimal_value_decimal: "decimal_value (decimal n) = n"
proof (induction n rule: decimal.induct)
  case (1 n)
  show ?case
  proof (cases "n < 10")
    case True
    then show ?thesis
      by (simp add: decimal.simps [of n] decimal_value_def digit_value_digit_char)
  next
    case False
    then have "decimal n = decimal (n div 10) @ [digit_char (n mod 10)]"
      by (simp add: decimal.simps [of n])
    then show ?thesis
      using 1 False by (simp add: decimal_value_snoc digit_value_digit_char)
  qed
qed

lemma decimal_digits: "set (decimal n) \<subseteq> set ''0123456789''"
proof (induction n rule: decimal.induct)
  case (1 n)
  have d: "\<And>d. d < 10 \<Longrightarrow> digit_char d \<in> set ''0123456789''"
    unfolding digit_char_def by (rule nth_mem) simp
  show ?case
  proof (cases "n < 10")
    case True
    then show ?thesis using d [of n] by (simp add: decimal.simps [of n])
  next
    case False
    then have "decimal n = decimal (n div 10) @ [digit_char (n mod 10)]"
      by (simp add: decimal.simps [of n])
    then show ?thesis
      using 1 False d [of "n mod 10"] by simp
  qed
qed

subsection \<open>Reverted transactions\<close>

lemma exec_failed: "dispatch s c = Inl e \<Longrightarrow> exec s c = s"
  by (simp add: exec_def)

lemma exec_mint_failed: "mint s acct v t q = Inl e \<Longrightarrow> exec s (Call_mint acct v t q) = s"
  by (simp add: exec_def)

lemma mint_over_cap_fails:
  assumes "unat (maxSupply s) < unat (totalIssued s) + unat q"
  shows "\<exists>e. mint s acct v t q = Inl e"
proof (cases "mint s acct v t q")
  case (Inl e) then show ?thesis by blast
next
  case (Inr s')
  from mint_Inr [OF Inr] assms show ?thesis by simp
qed

lemma maxSupply_run: "maxSupply (run s cs) = maxSupply s"
  using same_config_run [of s cs] by (simp add: same_config_def)

subsection \<open>Further facts about the calls\<close>

lemma mint_underpaid_fails:
  assumes "unat v < unat (cost s) * unat q"
  shows "\<exists>e. mint s acct v t q = Inl e"
proof (cases "mint s acct v t q")
  case (Inl e) then show ?thesis by blast
next
  case (Inr s')
  from mint_Inr [OF Inr] assms show ?thesis by simp
qed

lemma withdraw_not_owner:
  "acct \<noteq> owner s \<Longrightarrow> withdraw s acct success = Inl Caller_is_not_the_owner"
  by (auto simp: withdraw_def onlyOwner_def)

lemma setCost_not_owner:
  "acct \<noteq> owner s \<Longrightarrow> setCost s acct newCost = Inl Caller_is_not_the_owner"
  by (auto simp: setCost_def onlyOwner_def)

lemma mint_loop_Inl:
  "mint_loop s acct base mintAmount i = Inl e \<Longrightarrow> e = Panic_overflow \<or> e = Token_already_minted"
proof (induction s acct base mintAmount i rule: mint_loop.induct)
  case (1 s acct base mintAmount i)
  show ?case
  proof (cases "i \<le> mintAmount")
    case False
    then show ?thesis using "1.prems" by (simp add: mint_loop.simps [of s])
  next
    case True
    show ?thesis
    proof (cases "checked_add base i")
      case (Inl e1)
      then show ?thesis
        using "1.prems" True
        by (auto simp: mint_loop.simps [of s] checked_add_def split: if_splits)
    next
      case (Inr tokenId)
      show ?thesis
      proof (cases "safeMint s acct tokenId")
        case (Inl e2)
        then show ?thesis
          using "1.prems" True Inr
          by (auto simp: mint_loop.simps [of s] safeMint_def split: if_splits)
      next
        case s1: (Inr s1)
        show ?thesis
        proof (cases "unat i + 1 < 2 ^ 256")
          case False
          then show ?thesis
            using "1.prems" True Inr s1 by (simp add: mint_loop.simps [of s])
        next
          case nov: True
          have "mint_loop s1 acct base mintAmount (i + 1) = Inl e"
            using "1.prems" True Inr s1 nov by (simp add: mint_loop.simps [of s])
          then show ?thesis
            by (rule "1.IH" [OF True Inr s1 nov])
        qed
      qed
    qed
  qed
qed

lemma mint_not_yet_iff:
  "mint s acct v t q = Inl Minting_not_yet_allowed \<longleftrightarrow> t < allowMintingOn s"
proof
  assume "t < allowMintingOn s"
  then show "mint s acct v t q = Inl Minting_not_yet_allowed" by (rule mint_too_early)
next
  assume e: "mint s acct v t q = Inl Minting_not_yet_allowed"
  show "t < allowMintingOn s"
  proof (rule ccontr)
    assume "\<not> t < allowMintingOn s"
    then have le: "allowMintingOn s \<le> t" by (simp add: not_less)
    from e le show False
      by (auto simp: mint_def Let_def checked_add_Inl checked_mul_Inl
               split: if_splits sum.splits dest: mint_loop_Inl)
  qed
qed

lemma allowMintingOn_run: "allowMintingOn (run s cs) = allowMintingOn s"
  using same_config_run [of s cs] by (simp add: same_config_def)

text \<open>The equations that evaluate a call on a concrete ledger.\<close>

lemmas ledger_eval = exec_def scenario_def constructor_def mint_def checked_mul_def checked_add_def
  totalSupply_def Let_def mint_loop.simps safeMint_def exists_def word_le_nat_alt

lemma distinct_ids_from:
  fixes T :: uint256
  assumes "unat T + n < 2 ^ 256"
  shows "distinct (ids_from T i n)"
  using sorted_ids_from [OF assms, of i] by (simp add: strict_sorted_iff)

lemma ledger_inv_reachable: "ledger_inv (run (constructor d n sy c m a b) cs)"
  by (rule ledger_inv_run [OF ledger_inv_constructor])

lemma issued_ids_reachable:
  assumes "ledger_inv s"
  shows "owners s tokenId \<noteq> None \<longleftrightarrow> 1 \<le> unat tokenId \<and> unat tokenId \<le> unat (totalIssued s)"
proof -
  have "owners s tokenId \<noteq> None \<longleftrightarrow> 0 < tokenId \<and> tokenId \<le> totalIssued s"
    using assms by (simp add: ledger_inv_def)
  then show ?thesis
    by (auto simp: word_le_nat_alt word_less_nat_alt)
qed

lemma decimal_no_leading_zero: "n \<noteq> 0 \<Longrightarrow> decimal n \<noteq> [] \<and> hd (decimal n) \<noteq> CHR ''0''"
proof (induction n rule: decimal.induct)
  case (1 n)
  show ?case
  proof (cases "n < 10")
    case True
    then have "n \<in> {1, 2, 3, 4, 5, 6, 7, 8, 9}" using "1.prems" by auto
    moreover have "decimal n = [digit_char n]" using True by (simp add: decimal.simps [of n])
    ultimately show ?thesis by (auto simp: digit_char_def)
  next
    case False
    then have eq: "decimal n = decimal (n div 10) @ [digit_char (n mod 10)]"
      by (simp add: decimal.simps [of n])
    have "n div 10 \<noteq> 0" using False by simp
    then have "decimal (n div 10) \<noteq> [] \<and> hd (decimal (n div 10)) \<noteq> CHR ''0''"
      using "1.IH" False by simp
    then show ?thesis by (simp add: eq)
  qed
qed

lemma tokenURI_reachable:
  assumes "ledger_inv s"
  shows "tokenURI s tokenId =
     (if 1 \<le> unat tokenId \<and> unat tokenId \<le> unat (totalIssued s)
      then Inr (baseURI s @ toString tokenId @ baseExtension s) else Inl Token_does_not_exist)"
  using issued_ids_reachable [OF assms, of tokenId] by (simp add: tokenURI_def exists_def)

lemma walletOfOwner_reachable:
  assumes "ledger_inv s"
  shows "walletOfOwner s a = Inr (ownedTokens s a)"
proof -
  have "length (ownedTokens s a) \<le> unat (totalIssued s)"
    using assms by (simp add: ledger_inv_def)
  then have "length (ownedTokens s a) < 2 ^ 256"
    using unat_lt_2p256 [of "totalIssued s"] by simp
  then show ?thesis by (rule walletOfOwner_eq)
qed

lemma tokenOfOwnerByIndex_nth:
  assumes "length (ownedTokens s a) < 2 ^ 256" and "k < length (ownedTokens s a)"
  shows "tokenOfOwnerByIndex s a (word_of_nat k) = Inr (ownedTokens s a ! k)"
proof -
  have k: "unat (word_of_nat k :: uint256) = k"
    using assms by (simp add: unat_of_nat_small)
  have "unat (balanceOf s a) = length (ownedTokens s a)"
    using assms(1) by (simp add: balanceOf_def unat_of_nat_small)
  then have "(word_of_nat k :: uint256) < balanceOf s a"
    using assms(2) k by (simp add: word_less_nat_alt)
  then show ?thesis by (simp add: tokenOfOwnerByIndex_def k)
qed

section \<open>The supply bound\<close>

text \<open>
  C1, as the contract has it. After any sequence of calls on a freshly deployed contract
  the supply \<open>totalIssued\<close> is at most \<open>maxSupply\<close>, which is still the constructor's
  argument. A \<open>mint\<close> whose quantity would push the supply past \<open>maxSupply\<close> always
  fails, issues nothing and leaves the whole state, \<open>totalIssued\<close> included, as it was.
  The failure is \<^verbatim>\<open>"Would exceed max supply"\<close> when the three earlier checks pass (the
  time gate is open, the quantity is at least 1, the payment covers \<open>cost * quantity\<close>)
  and \<open>totalIssued + quantity\<close> fits into 256 bits; otherwise the earlier check or the
  checked addition fails first.
\<close>

theorem C1_supply_bound:
  "totalIssued (run (constructor d n sy c m a b) cs) \<le> maxSupply (run (constructor d n sy c m a b) cs)
   \<and> maxSupply (run (constructor d n sy c m a b) cs) = m
   \<and> (unat (maxSupply s) < unat (totalIssued s) + unat q \<longrightarrow>
        (\<exists>e. mint s acct v t q = Inl e) \<and> exec s (Call_mint acct v t q) = s)
   \<and> (unat (maxSupply s) < unat (totalIssued s) + unat q \<and>
        allowMintingOn s \<le> t \<and> 0 < q \<and> unat (cost s) * unat q \<le> unat v \<and>
        unat (totalIssued s) + unat q < 2 ^ 256 \<longrightarrow>
        mint s acct v t q = Inl Would_exceed_max_supply)"
proof -
  let ?s = "run (constructor d n sy c m a b) cs"
  have "ledger_inv ?s"
    by (rule ledger_inv_run [OF ledger_inv_constructor])
  then have A: "totalIssued ?s \<le> maxSupply ?s"
    by (simp add: ledger_inv_def)
  have B: "maxSupply ?s = m"
    by (simp add: maxSupply_run constructor_def)
  have C: "unat (maxSupply s) < unat (totalIssued s) + unat q \<longrightarrow>
        (\<exists>e. mint s acct v t q = Inl e) \<and> exec s (Call_mint acct v t q) = s"
    using mint_over_cap_fails [of s q acct v t] exec_mint_failed [of s acct v t q] by blast
  have D: "unat (maxSupply s) < unat (totalIssued s) + unat q \<and>
        allowMintingOn s \<le> t \<and> 0 < q \<and> unat (cost s) * unat q \<le> unat v \<and>
        unat (totalIssued s) + unat q < 2 ^ 256 \<longrightarrow>
        mint s acct v t q = Inl Would_exceed_max_supply"
    using mint_over_supply [of s t q v acct] by blast
  show ?thesis using A B C D by blast
qed

text \<open>
  The spec's scenario 4: with \<open>maxSupply = 25\<close> and a unit cost of 10, minting 100 with
  a payment of 1000 is rejected for the supply, and nothing changes. Filling the supply
  with 25 tokens and asking for one more leaves the supply within 25.
\<close>

theorem C1_supply_bound_witness:
  "unat (maxSupply (scenario 0)) < unat (totalIssued (scenario 0)) + unat (100 :: uint256)
   \<and> allowMintingOn (scenario 0) \<le> 0 \<and> (0 :: uint256) < 100
   \<and> unat (cost (scenario 0)) * unat (100 :: uint256) \<le> unat (1000 :: uint256)
   \<and> mint (scenario 0) 2 1000 0 100 = Inl Would_exceed_max_supply
   \<and> exec (scenario 0) (Call_mint 2 1000 0 100) = scenario 0
   \<and> totalIssued (run (scenario 0) [Call_mint 2 250 0 25, Call_mint 2 10 0 1]) \<le> 25"
proof -
  have h: "unat (maxSupply (scenario 0)) < unat (totalIssued (scenario 0)) + unat (100 :: uint256)
     \<and> allowMintingOn (scenario 0) \<le> 0 \<and> (0 :: uint256) < 100
     \<and> unat (cost (scenario 0)) * unat (100 :: uint256) \<le> unat (1000 :: uint256)
     \<and> unat (totalIssued (scenario 0)) + unat (100 :: uint256) < 2 ^ 256"
    by (simp add: scenario_def constructor_def)
  note t1 = C1_supply_bound [of 1 "''Dapp Punks''" "''DP''" 10 25 0 "''ipfs://punks/''"
     "[Call_mint 2 250 0 25, Call_mint 2 10 0 1]" "scenario 0" 100 2 1000 0]
  show ?thesis using h t1 unfolding scenario_def by auto
qed

text \<open>
  The same request with a payment of 10, as in the repository's test "does not allow more
  NFTs to be minted than max amount": the payment check comes first, so the call fails
  with \<^verbatim>\<open>"Insufficient payment"\<close> and not with \<^verbatim>\<open>"Would exceed max supply"\<close>.
\<close>

theorem C1_counterexample:
  "unat (maxSupply (scenario 0)) < unat (totalIssued (scenario 0)) + unat (100 :: uint256)
   \<and> mint (scenario 0) 2 10 0 100 = Inl Insufficient_payment
   \<and> mint (scenario 0) 2 10 0 100 \<noteq> Inl Would_exceed_max_supply"
  by (simp add: scenario_def constructor_def mint_def checked_mul_def Let_def)

section \<open>What a successful mint does\<close>

text \<open>
  C2. When \<open>mint\<close> succeeds for a quantity \<open>q\<close> on a ledger with supply \<open>totalIssued s\<close>:
  the tokens with the ids \<open>totalIssued s + 1, \<dots>, totalIssued s + q\<close> are owned by the
  caller afterwards and no other ownership changes; none of them existed before, and
  they are exactly the tokens that exist afterwards but not before, \<open>q\<close> in number; the
  caller's enumeration is extended by these ids in increasing order and no other
  enumeration changes; the supply grows by \<open>q\<close>; the balance grows by the payment (as a
  number, unless the sum left the 256 bits of a balance); one event \<open>Mint q caller\<close> is
  appended; cost, payouts and the fields fixed at deployment stay. Consequently, after
  any sequence of calls on a fresh deployment the tokens that exist are exactly those
  with the ids \<open>1, \<dots>, totalIssued\<close>, each call having taken the ids just above the
  supply it found.
\<close>

theorem C2_mint_success:
  assumes "mint s acct v t q = Inr s'"
  shows "(\<forall>tokenId. owners s' tokenId =
            (if unat (totalIssued s) < unat tokenId \<and> unat tokenId \<le> unat (totalIssued s) + unat q
             then Some acct else owners s tokenId))
     \<and> (\<forall>tokenId. unat (totalIssued s) < unat tokenId \<and> unat tokenId \<le> unat (totalIssued s) + unat q
            \<longrightarrow> owners s tokenId = None)
     \<and> card {tokenId. owners s tokenId = None \<and> owners s' tokenId \<noteq> None} = unat q
     \<and> ownedTokens s' acct =
          ownedTokens s acct @ map (\<lambda>i. totalIssued s + word_of_nat i) [1 ..< Suc (unat q)]
     \<and> (\<forall>a. a \<noteq> acct \<longrightarrow> ownedTokens s' a = ownedTokens s a)
     \<and> unat (totalIssued s') = unat (totalIssued s) + unat q
     \<and> balance s' = balance s + v
     \<and> (unat (balance s) + unat v < 2 ^ 256 \<longrightarrow> unat (balance s') = unat (balance s) + unat v)
     \<and> events s' = events s @ [Mint q acct]
     \<and> cost s' = cost s \<and> payouts s' = payouts s \<and> same_config s s'
     \<and> (\<forall>tokenId. owners (run (constructor d n sy c m a0 b) cs) tokenId \<noteq> None \<longleftrightarrow>
            1 \<le> unat tokenId \<and>
            unat tokenId \<le> unat (totalIssued (run (constructor d n sy c m a0 b) cs)))"
proof -
  let ?T = "totalIssued s" and ?n = "unat q"
  let ?ids = "ids_from (totalIssued s) 1 (unat q)"
  from mint_Inr [OF assms] have
    cap: "unat ?T + ?n \<le> unat (maxSupply s)" and
    s': "s' = (issue (s\<lparr>balance := balance s + v\<rparr>) acct ?ids)\<lparr>events := events s @ [Mint q acct]\<rparr>" and
    fresh: "\<forall>tokenId \<in> set ?ids. owners s tokenId = None"
    by simp_all
  have nov: "unat ?T + ?n < 2 ^ 256"
    using cap unat_lt_2p256 [of "maxSupply s"] by simp
  have mem: "\<And>tokenId. tokenId \<in> set ?ids \<longleftrightarrow> unat ?T < unat tokenId \<and> unat tokenId \<le> unat ?T + ?n"
    by (rule set_ids_from [OF nov])
  have own': "\<And>tokenId. owners s' tokenId = (if tokenId \<in> set ?ids then Some acct else owners s tokenId)"
    by (simp add: s' issue_def)
  have A: "\<forall>tokenId. owners s' tokenId =
            (if unat ?T < unat tokenId \<and> unat tokenId \<le> unat ?T + ?n
             then Some acct else owners s tokenId)"
    using own' mem by simp
  have B: "\<forall>tokenId. unat ?T < unat tokenId \<and> unat tokenId \<le> unat ?T + ?n \<longrightarrow> owners s tokenId = None"
    using fresh mem by blast
  have "{tokenId. owners s tokenId = None \<and> owners s' tokenId \<noteq> None} = set ?ids"
    using fresh by (auto simp: own')
  moreover have "card (set ?ids) = length ?ids"
    by (rule distinct_card [OF distinct_ids_from [OF nov]])
  ultimately have C: "card {tokenId. owners s tokenId = None \<and> owners s' tokenId \<noteq> None} = ?n"
    by (simp add: length_ids_from)
  have D: "ownedTokens s' acct = ownedTokens s acct @ map (\<lambda>i. ?T + word_of_nat i) [1 ..< Suc ?n]"
    by (simp add: s' issue_def ids_from_def del: upt_Suc)
  have E: "\<forall>a. a \<noteq> acct \<longrightarrow> ownedTokens s' a = ownedTokens s a"
    by (simp add: s' issue_def)
  have "totalIssued s' = ?T + q"
    by (simp add: s' issue_def length_ids_from)
  then have F: "unat (totalIssued s') = unat ?T + ?n"
    using nov by (simp add: unat_add_exact)
  have G: "balance s' = balance s + v"
    by (simp add: s' issue_def)
  have H: "unat (balance s) + unat v < 2 ^ 256 \<longrightarrow> unat (balance s') = unat (balance s) + unat v"
    by (simp add: G unat_add_exact)
  have I: "events s' = events s @ [Mint q acct]"
    by (simp add: s')
  have J: "cost s' = cost s \<and> payouts s' = payouts s \<and> same_config s s'"
    by (simp add: s' issue_def same_config_def)
  have K: "\<forall>tokenId. owners (run (constructor d n sy c m a0 b) cs) tokenId \<noteq> None \<longleftrightarrow>
            1 \<le> unat tokenId \<and>
            unat tokenId \<le> unat (totalIssued (run (constructor d n sy c m a0 b) cs))"
    using issued_ids_reachable [OF ledger_inv_reachable] by blast
  show ?thesis using A B C D E F G H I J K by blast
qed

text \<open>
  The spec's scenario 1 and a second call: account 2 mints one token for 10, then
  account 3 mints three tokens for 31. The second call issues the ids 2, 3 and 4 to
  account 3, token 1 stays with account 2, the supply is 4, the balance 41, and the
  second event is \<open>Mint 3 3\<close>.
\<close>

theorem C2_mint_success_witness:
  "mint (exec (scenario 0) (Call_mint 2 10 0 1)) 3 31 5 3 =
      Inr (run (scenario 0) [Call_mint 2 10 0 1, Call_mint 3 31 5 3])
   \<and> totalIssued (exec (scenario 0) (Call_mint 2 10 0 1)) = 1
   \<and> owners (run (scenario 0) [Call_mint 2 10 0 1, Call_mint 3 31 5 3]) 1 = Some 2
   \<and> owners (run (scenario 0) [Call_mint 2 10 0 1, Call_mint 3 31 5 3]) 2 = Some 3
   \<and> owners (run (scenario 0) [Call_mint 2 10 0 1, Call_mint 3 31 5 3]) 4 = Some 3
   \<and> owners (run (scenario 0) [Call_mint 2 10 0 1, Call_mint 3 31 5 3]) 5 = None
   \<and> ownedTokens (run (scenario 0) [Call_mint 2 10 0 1, Call_mint 3 31 5 3]) 3 = [2, 3, 4]
   \<and> unat (totalIssued (run (scenario 0) [Call_mint 2 10 0 1, Call_mint 3 31 5 3])) = 4
   \<and> balance (run (scenario 0) [Call_mint 2 10 0 1, Call_mint 3 31 5 3]) = 41
   \<and> events (run (scenario 0) [Call_mint 2 10 0 1, Call_mint 3 31 5 3]) = [Mint 1 2, Mint 3 3]"
proof -
  let ?s = "exec (scenario 0) (Call_mint 2 10 0 1)"
  let ?s' = "run (scenario 0) [Call_mint 2 10 0 1, Call_mint 3 31 5 3]"
  have s: "?s = (scenario 0)\<lparr>owners := [1 \<mapsto> 2],
       ownedTokens := (\<lambda>_. [])(2 := [1]), totalIssued := 1, balance := 10, events := [Mint 1 2]\<rparr>"
    by (simp add: ledger_eval)
  have T: "totalIssued ?s = 1" and o1: "owners ?s 1 = Some 2" and o5: "owners ?s 5 = None"
    and ot: "ownedTokens ?s 3 = []" and bal: "balance ?s = 10" and ev: "events ?s = [Mint 1 2]"
    unfolding s by (simp_all add: scenario_def constructor_def)
  have ok: "mint ?s 3 31 5 3 = Inr ?s'"
    unfolding run_def foldl.simps s by (simp add: ledger_eval)
  note t = C2_mint_success [OF ok, of 1 "''Dapp Punks''" "''DP''" 10 25 0 "''ipfs://punks/''" "[]"]
  have a: "owners ?s' 1 = Some 2" "owners ?s' 2 = Some 3" "owners ?s' 4 = Some 3" "owners ?s' 5 = None"
    using t by (simp_all add: T o1 o5)
  have u: "[1 ..< Suc (unat (3 :: uint256))] = [1, 2, 3]"
    by (simp add: upt_rec)
  from t have D: "ownedTokens ?s' 3 =
      ownedTokens ?s 3 @ map (\<lambda>i. totalIssued ?s + word_of_nat i) [1 ..< Suc (unat (3 :: uint256))]"
    by blast
  have b: "ownedTokens ?s' 3 = [2, 3, 4]"
    unfolding D ot T u by simp
  have c: "unat (totalIssued ?s') = 4" "balance ?s' = 41" "events ?s' = [Mint 1 2, Mint 3 3]"
    using t by (simp_all add: T bal ev)
  show ?thesis using ok T a b c by simp
qed

section \<open>The precondition chain of mint\<close>

text \<open>
  C3, as the contract has it. \<open>mint\<close> checks, in this order: (1) the block's time
  against \<open>allowMintingOn\<close>, else \<^verbatim>\<open>"Minting not yet allowed"\<close>; (2) a quantity of at
  least 1, else \<^verbatim>\<open>"Must mint at least 1 NFT"\<close>; (3) the payment against
  \<open>cost * quantity\<close>, where a product that does not fit into 256 bits is an arithmetic
  panic and a payment below the product is \<^verbatim>\<open>"Insufficient payment"\<close>; (4) the supply,
  where a sum \<open>totalIssued + quantity\<close> that does not fit into 256 bits is an arithmetic
  panic and a sum above \<open>maxSupply\<close> is \<^verbatim>\<open>"Would exceed max supply"\<close>. The first check
  that fails decides the error, whatever the later ones would say, and a failing call
  leaves the whole state (supply, ownership, enumeration, balance, events) as it was.
\<close>

theorem C3_precondition_order:
  "(t < allowMintingOn s \<longrightarrow> mint s acct v t q = Inl Minting_not_yet_allowed)
   \<and> (allowMintingOn s \<le> t \<and> q = 0 \<longrightarrow> mint s acct v t q = Inl Must_mint_at_least_1_NFT)
   \<and> (allowMintingOn s \<le> t \<and> 0 < q \<and> 2 ^ 256 \<le> unat (cost s) * unat q \<longrightarrow>
        mint s acct v t q = Inl Panic_overflow)
   \<and> (allowMintingOn s \<le> t \<and> 0 < q \<and> unat (cost s) * unat q < 2 ^ 256 \<and>
        unat v < unat (cost s) * unat q \<longrightarrow>
        mint s acct v t q = Inl Insufficient_payment)
   \<and> (allowMintingOn s \<le> t \<and> 0 < q \<and> unat (cost s) * unat q \<le> unat v \<and>
        2 ^ 256 \<le> unat (totalIssued s) + unat q \<longrightarrow>
        mint s acct v t q = Inl Panic_overflow)
   \<and> (allowMintingOn s \<le> t \<and> 0 < q \<and> unat (cost s) * unat q \<le> unat v \<and>
        unat (totalIssued s) + unat q < 2 ^ 256 \<and>
        unat (maxSupply s) < unat (totalIssued s) + unat q \<longrightarrow>
        mint s acct v t q = Inl Would_exceed_max_supply)
   \<and> (mint s acct v t q = Inl e \<longrightarrow> exec s (Call_mint acct v t q) = s)"
proof -
  have 1: "t < allowMintingOn s \<longrightarrow> mint s acct v t q = Inl Minting_not_yet_allowed"
    by (simp add: mint_too_early)
  have 2: "allowMintingOn s \<le> t \<and> q = 0 \<longrightarrow> mint s acct v t q = Inl Must_mint_at_least_1_NFT"
    by (auto simp: mint_zero)
  have 3: "allowMintingOn s \<le> t \<and> 0 < q \<and> 2 ^ 256 \<le> unat (cost s) * unat q \<longrightarrow>
        mint s acct v t q = Inl Panic_overflow"
    using mint_mul_overflow [of s t q acct v] by (simp add: not_less)
  have 4: "allowMintingOn s \<le> t \<and> 0 < q \<and> unat (cost s) * unat q < 2 ^ 256 \<and>
        unat v < unat (cost s) * unat q \<longrightarrow> mint s acct v t q = Inl Insufficient_payment"
    using mint_underpaid [of s t q v acct] by blast
  have 5: "allowMintingOn s \<le> t \<and> 0 < q \<and> unat (cost s) * unat q \<le> unat v \<and>
        2 ^ 256 \<le> unat (totalIssued s) + unat q \<longrightarrow> mint s acct v t q = Inl Panic_overflow"
    using mint_add_overflow [of s t q v acct] by (simp add: not_less)
  have 6: "allowMintingOn s \<le> t \<and> 0 < q \<and> unat (cost s) * unat q \<le> unat v \<and>
        unat (totalIssued s) + unat q < 2 ^ 256 \<and>
        unat (maxSupply s) < unat (totalIssued s) + unat q \<longrightarrow>
        mint s acct v t q = Inl Would_exceed_max_supply"
    using mint_over_supply [of s t q v acct] by blast
  have 7: "mint s acct v t q = Inl e \<longrightarrow> exec s (Call_mint acct v t q) = s"
    by (simp add: exec_mint_failed)
  show ?thesis using 1 2 3 4 5 6 7 by blast
qed

text \<open>
  One call for each check on the deployment of the tests (unit cost 10, supply 25):
  too early although unpaid and of quantity 0; quantity 0 although unpaid; underpaid
  although beyond the supply; beyond the supply. The two panics need a unit cost, or a
  supply and a quantity, of \<open>2 ^ 255\<close>.
\<close>

theorem C3_precondition_order_witness:
  "mint (scenario 1000) 2 0 999 0 = Inl Minting_not_yet_allowed
   \<and> mint (scenario 1000) 2 0 1000 0 = Inl Must_mint_at_least_1_NFT
   \<and> mint (scenario 1000) 2 999 1000 100 = Inl Insufficient_payment
   \<and> mint (scenario 1000) 2 1000 1000 100 = Inl Would_exceed_max_supply
   \<and> mint ((scenario 1000)\<lparr>cost := 2 ^ 255\<rparr>) 2 0 1000 2 = Inl Panic_overflow
   \<and> mint ((scenario 1000)\<lparr>cost := 0, totalIssued := 2 ^ 255\<rparr>) 2 0 1000 (2 ^ 255) = Inl Panic_overflow
   \<and> exec (scenario 1000) (Call_mint 2 999 1000 100) = scenario 1000"
proof -
  let ?s = "scenario 1000"
  have a: "mint ?s 2 0 999 0 = Inl Minting_not_yet_allowed"
    using C3_precondition_order [where s = ?s and acct = 2 and v = 0 and t = 999 and q = 0] by (simp add: scenario_def constructor_def)
  have b: "mint ?s 2 0 1000 0 = Inl Must_mint_at_least_1_NFT"
    using C3_precondition_order [where s = ?s and acct = 2 and v = 0 and t = 1000 and q = 0] by (simp add: scenario_def constructor_def)
  have c: "mint ?s 2 999 1000 100 = Inl Insufficient_payment"
    using C3_precondition_order [where s = ?s and acct = 2 and v = 999 and t = 1000 and q = 100] by (simp add: scenario_def constructor_def)
  have d: "mint ?s 2 1000 1000 100 = Inl Would_exceed_max_supply"
    using C3_precondition_order [where s = ?s and acct = 2 and v = 1000 and t = 1000 and q = 100] by (simp add: scenario_def constructor_def)
  have e: "mint (?s\<lparr>cost := 2 ^ 255\<rparr>) 2 0 1000 2 = Inl Panic_overflow"
    using C3_precondition_order [where s = "?s\<lparr>cost := 2 ^ 255\<rparr>" and acct = 2 and v = 0 and t = 1000 and q = 2]
    by (simp add: scenario_def constructor_def)
  have f: "mint (?s\<lparr>cost := 0, totalIssued := 2 ^ 255\<rparr>) 2 0 1000 (2 ^ 255) = Inl Panic_overflow"
    using C3_precondition_order [where s = "?s\<lparr>cost := 0, totalIssued := 2 ^ 255\<rparr>" and acct = 2 and v = 0 and t = 1000 and q = "2 ^ 255"]
    by (simp add: scenario_def constructor_def)
  have g: "exec ?s (Call_mint 2 999 1000 100) = ?s"
    using C3_precondition_order [where s = ?s and acct = 2 and v = 999 and t = 1000 and q = 100 and e = Insufficient_payment] c by simp
  show ?thesis using a b c d e f g by simp
qed

text \<open>
  With a unit cost of \<open>2 ^ 255\<close> and a quantity of 2 the time gate is open, the quantity
  is at least 1 and the payment 0 is below \<open>cost * quantity = 2 ^ 256\<close>: the third
  condition is the first that fails, and the call does not fail with
  \<^verbatim>\<open>"Insufficient payment"\<close> but with the arithmetic panic of the checked product.
\<close>

theorem C3_counterexample:
  "allowMintingOn ((scenario 1000)\<lparr>cost := 2 ^ 255\<rparr>) \<le> 1000
   \<and> (1 :: uint256) \<le> 2
   \<and> unat (0 :: uint256) < unat (cost ((scenario 1000)\<lparr>cost := 2 ^ 255\<rparr>)) * unat (2 :: uint256)
   \<and> mint ((scenario 1000)\<lparr>cost := 2 ^ 255\<rparr>) 2 0 1000 2 = Inl Panic_overflow
   \<and> mint ((scenario 1000)\<lparr>cost := 2 ^ 255\<rparr>) 2 0 1000 2 \<noteq> Inl Insufficient_payment"
  by (simp add: scenario_def constructor_def mint_def checked_mul_def Let_def)

section \<open>The payment floor\<close>

text \<open>
  C4, as the contract has it. A \<open>mint\<close> whose payment is below \<open>cost * quantity\<close> never
  succeeds and changes nothing, whatever the quantity and the time. It fails with
  \<^verbatim>\<open>"Insufficient payment"\<close> when the block's time has reached \<open>allowMintingOn\<close> and the
  product fits into 256 bits; before \<open>allowMintingOn\<close> the time check comes first and
  the call fails with \<^verbatim>\<open>"Minting not yet allowed"\<close>.
\<close>

theorem C4_payment_floor:
  "(unat v < unat (cost s) * unat q \<longrightarrow>
      (\<exists>e. mint s acct v t q = Inl e) \<and> exec s (Call_mint acct v t q) = s)
   \<and> (unat v < unat (cost s) * unat q \<and> allowMintingOn s \<le> t \<and>
        unat (cost s) * unat q < 2 ^ 256 \<longrightarrow>
        mint s acct v t q = Inl Insufficient_payment)
   \<and> (unat v < unat (cost s) * unat q \<and> t < allowMintingOn s \<longrightarrow>
        mint s acct v t q = Inl Minting_not_yet_allowed)"
proof -
  have A: "unat v < unat (cost s) * unat q \<longrightarrow>
      (\<exists>e. mint s acct v t q = Inl e) \<and> exec s (Call_mint acct v t q) = s"
    using mint_underpaid_fails [of v s q acct t] exec_mint_failed [of s acct v t q] by blast
  have B: "unat v < unat (cost s) * unat q \<and> allowMintingOn s \<le> t \<and>
        unat (cost s) * unat q < 2 ^ 256 \<longrightarrow> mint s acct v t q = Inl Insufficient_payment"
  proof (intro impI, elim conjE)
    assume u: "unat v < unat (cost s) * unat q" and t: "allowMintingOn s \<le> t"
      and m: "unat (cost s) * unat q < 2 ^ 256"
    have "unat q \<noteq> 0" using u by (cases "unat q = 0") simp_all
    then have "0 < q" by (simp add: word_less_nat_alt)
    then show "mint s acct v t q = Inl Insufficient_payment"
      using mint_underpaid [OF t _ m u] by simp
  qed
  have C: "unat v < unat (cost s) * unat q \<and> t < allowMintingOn s \<longrightarrow>
        mint s acct v t q = Inl Minting_not_yet_allowed"
    by (simp add: mint_too_early)
  show ?thesis using A B C by blast
qed

text \<open>
  The spec's scenario 2 on the deployment of the tests: a payment of 1 for one token of
  unit cost 10 is refused as insufficient, whether the time is the opening time or
  later, and for 3 tokens as well; the state stays as it was.
\<close>

theorem C4_payment_floor_witness:
  "unat (1 :: uint256) < unat (cost (scenario 1000)) * unat (1 :: uint256)
   \<and> allowMintingOn (scenario 1000) \<le> 1000
   \<and> mint (scenario 1000) 2 1 1000 1 = Inl Insufficient_payment
   \<and> mint (scenario 1000) 2 1 5000 3 = Inl Insufficient_payment
   \<and> exec (scenario 1000) (Call_mint 2 1 1000 1) = scenario 1000"
proof -
  let ?s = "scenario 1000"
  have h: "unat (1 :: uint256) < unat (cost ?s) * unat (1 :: uint256) \<and> allowMintingOn ?s \<le> 1000"
    by (simp add: scenario_def constructor_def)
  have a: "mint ?s 2 1 1000 1 = Inl Insufficient_payment \<and> exec ?s (Call_mint 2 1 1000 1) = ?s"
    using C4_payment_floor [where s = ?s and acct = 2 and v = 1 and t = 1000 and q = 1]
    by (simp add: scenario_def constructor_def)
  have b: "mint ?s 2 1 5000 3 = Inl Insufficient_payment"
    using C4_payment_floor [where s = ?s and acct = 2 and v = 1 and t = 5000 and q = 3]
    by (simp add: scenario_def constructor_def)
  show ?thesis using h a b by simp
qed

text \<open>
  The same underpaid call one second before the opening time does not fail with
  \<^verbatim>\<open>"Insufficient payment"\<close>: the time check comes first.
\<close>

theorem C4_counterexample:
  "unat (1 :: uint256) < unat (cost (scenario 1000)) * unat (1 :: uint256)
   \<and> mint (scenario 1000) 2 1 999 1 = Inl Minting_not_yet_allowed
   \<and> mint (scenario 1000) 2 1 999 1 \<noteq> Inl Insufficient_payment"
  by (simp add: scenario_def constructor_def mint_def Let_def)

section \<open>tokenURI\<close>

text \<open>
  C5. On a ledger \<open>s\<close> reached from a fresh deployment by any sequence of calls,
  \<open>tokenURI\<close> fails with \<^verbatim>\<open>'Token does not exist'\<close> exactly for the ids that were never
  issued, those below 1 or above \<open>totalIssued s\<close>, and returns for every other id the
  concatenation of \<open>baseURI\<close>, the decimal digits of the id and \<open>baseExtension\<close>, which
  are still the constructor's argument and \<^verbatim>\<open>".json"\<close>. The digits are decimal digits
  without a leading zero that read back as the id. \<open>tokenURI\<close> is a function of the
  ledger and the id that returns no ledger: it has no effect.
\<close>

theorem C5_tokenURI:
  assumes "s = run (constructor d n sy c m a b) cs"
  shows "tokenURI s tokenId =
           (if 1 \<le> unat tokenId \<and> unat tokenId \<le> unat (totalIssued s)
            then Inr (baseURI s @ toString tokenId @ baseExtension s)
            else Inl Token_does_not_exist)
     \<and> baseURI s = b \<and> baseExtension s = ''.json''
     \<and> decimal_value (toString tokenId) = unat tokenId
     \<and> set (toString tokenId) \<subseteq> set ''0123456789''
     \<and> (tokenId \<noteq> 0 \<longrightarrow> hd (toString tokenId) \<noteq> CHR ''0'')"
proof -
  have inv: "ledger_inv s"
    unfolding assms by (rule ledger_inv_reachable)
  have cfg: "same_config (constructor d n sy c m a b) s"
    unfolding assms by (rule same_config_run)
  have A: "tokenURI s tokenId =
           (if 1 \<le> unat tokenId \<and> unat tokenId \<le> unat (totalIssued s)
            then Inr (baseURI s @ toString tokenId @ baseExtension s)
            else Inl Token_does_not_exist)"
    by (rule tokenURI_reachable [OF inv])
  have B: "baseURI s = b \<and> baseExtension s = ''.json''"
    using cfg by (simp add: same_config_def constructor_def)
  have C: "decimal_value (toString tokenId) = unat tokenId"
    by (simp add: toString_def decimal_value_decimal)
  have D: "set (toString tokenId) \<subseteq> set ''0123456789''"
    unfolding toString_def by (rule decimal_digits)
  have E: "tokenId \<noteq> 0 \<longrightarrow> hd (toString tokenId) \<noteq> CHR ''0''"
    using decimal_no_leading_zero [of "unat tokenId"]
    by (simp add: toString_def unat_eq_0)
  show ?thesis using A B C D E by blast
qed

text \<open>
  The repository's tests: after one mint, \<open>tokenURI 1\<close> is the base URI followed by
  \<^verbatim>\<open>1.json\<close> and \<open>tokenURI 99\<close> fails; so does \<open>tokenURI 0\<close>. After a mint of 12 the
  last token's URI ends in \<^verbatim>\<open>12.json\<close>.
\<close>

theorem C5_tokenURI_witness:
  "tokenURI (run (scenario 0) [Call_mint 2 10 0 1]) 1 = Inr ''ipfs://punks/1.json''
   \<and> tokenURI (run (scenario 0) [Call_mint 2 10 0 1]) 99 = Inl Token_does_not_exist
   \<and> tokenURI (run (scenario 0) [Call_mint 2 10 0 1]) 0 = Inl Token_does_not_exist
   \<and> tokenURI (run (scenario 0) [Call_mint 2 10 0 1]) 2 = Inl Token_does_not_exist
   \<and> tokenURI (run (scenario 0) [Call_mint 2 120 0 12]) 12 = Inr ''ipfs://punks/12.json''
   \<and> decimal_value (toString 12) = 12"
proof -
  let ?s = "run (scenario 0) [Call_mint 2 10 0 1]" and ?r = "run (scenario 0) [Call_mint 2 120 0 12]"
  have T: "totalIssued ?s = 1"
    by (simp add: run_def ledger_eval)
  have R: "totalIssued ?r = 12"
    by (simp add: run_def ledger_eval)
  note t = C5_tokenURI [where s = ?s and cs = "[Call_mint 2 10 0 1]", unfolded scenario_def, OF refl]
  note r = C5_tokenURI [where s = ?r and cs = "[Call_mint 2 120 0 12]" and tokenId = 12,
      unfolded scenario_def, OF refl]
  have a: "tokenURI ?s 1 = Inr ''ipfs://punks/1.json''"
    using t [of 1] T by (simp add: scenario_def toString_def decimal.simps digit_char_def)
  have b: "tokenURI ?s 99 = Inl Token_does_not_exist" "tokenURI ?s 0 = Inl Token_does_not_exist"
    "tokenURI ?s 2 = Inl Token_does_not_exist"
    using t [of 99] t [of 0] t [of 2] T by (simp_all add: scenario_def)
  have c: "tokenURI ?r 12 = Inr ''ipfs://punks/12.json''" "decimal_value (toString 12) = 12"
    using r R by (simp_all add: scenario_def toString_def decimal.simps digit_char_def)
  show ?thesis using a b c by simp
qed

section \<open>withdraw\<close>

text \<open>
  C6. \<open>withdraw\<close> called by an account other than the owner fails with the access
  control's error, whatever the recipient would do. Called by the owner with a recipient
  that accepts the transfer, it sends the contract's whole balance to the owner, leaves
  a balance of 0 and emits \<open>Withdraw\<close> with the amount sent and the owner; nothing else
  changes. When the transfer is rejected it fails with \<^verbatim>\<open>"Withdrawal failed"\<close> and the
  state, the balance included, stays as it was.
\<close>

theorem C6_withdraw:
  "(acct \<noteq> owner s \<longrightarrow> withdraw s acct success = Inl Caller_is_not_the_owner)
   \<and> withdraw s (owner s) True =
        Inr (s\<lparr>balance := 0, payouts := payouts s @ [(owner s, balance s)],
               events := events s @ [Withdraw (balance s) (owner s)]\<rparr>)
   \<and> withdraw s (owner s) False = Inl Withdrawal_failed
   \<and> exec s (Call_withdraw (owner s) False) = s
   \<and> balance (exec s (Call_withdraw (owner s) False)) = balance s"
proof -
  have A: "acct \<noteq> owner s \<longrightarrow> withdraw s acct success = Inl Caller_is_not_the_owner"
    by (simp add: withdraw_not_owner)
  have B: "withdraw s (owner s) True =
        Inr (s\<lparr>balance := 0, payouts := payouts s @ [(owner s, balance s)],
               events := events s @ [Withdraw (balance s) (owner s)]\<rparr>)"
    by (simp add: withdraw_Inr)
  have C: "withdraw s (owner s) False = Inl Withdrawal_failed"
    by (simp add: withdraw_def onlyOwner_def)
  have D: "exec s (Call_withdraw (owner s) False) = s"
    using C by (simp add: exec_def)
  show ?thesis using A B C D by simp
qed

text \<open>
  The spec's scenario 6 on the deployment of the tests, after account 2 has minted one
  token for 10: the minter's \<open>withdraw\<close> is refused and the balance stays 10; the owner's
  \<open>withdraw\<close> empties the balance, pays 10 to the owner and emits \<open>Withdraw 10 1\<close>.
\<close>

theorem C6_withdraw_witness:
  "balance (exec (scenario 0) (Call_mint 2 10 0 1)) = 10
   \<and> owner (exec (scenario 0) (Call_mint 2 10 0 1)) = 1
   \<and> withdraw (exec (scenario 0) (Call_mint 2 10 0 1)) 2 True = Inl Caller_is_not_the_owner
   \<and> balance (run (scenario 0) [Call_mint 2 10 0 1, Call_withdraw 2 True]) = 10
   \<and> balance (run (scenario 0) [Call_mint 2 10 0 1, Call_withdraw 1 True]) = 0
   \<and> payouts (run (scenario 0) [Call_mint 2 10 0 1, Call_withdraw 1 True]) = [(1, 10)]
   \<and> events (run (scenario 0) [Call_mint 2 10 0 1, Call_withdraw 1 True]) = [Mint 1 2, Withdraw 10 1]
   \<and> balance (run (scenario 0) [Call_mint 2 10 0 1, Call_withdraw 1 False]) = 10"
proof -
  let ?s = "exec (scenario 0) (Call_mint 2 10 0 1)"
  have s: "?s = (scenario 0)\<lparr>owners := [1 \<mapsto> 2],
       ownedTokens := (\<lambda>_. [])(2 := [1]), totalIssued := 1, balance := 10, events := [Mint 1 2]\<rparr>"
    by (simp add: ledger_eval)
  have o: "owner ?s = 1" and b: "balance ?s = 10" and p: "payouts ?s = []" and e: "events ?s = [Mint 1 2]"
    unfolding s by (simp_all add: scenario_def constructor_def)
  have ne: "(2 :: address) \<noteq> owner ?s" by (simp add: o)
  note t = C6_withdraw [where s = ?s and acct = 2 and success = True]
  have a: "withdraw ?s 2 True = Inl Caller_is_not_the_owner"
    using t ne by blast
  have w: "withdraw ?s 1 True = Inr (?s\<lparr>balance := 0, payouts := [(1, 10)], events := [Mint 1 2, Withdraw 10 1]\<rparr>)"
    using t by (simp add: o b p e)
  have f: "exec ?s (Call_withdraw 1 False) = ?s"
    using t by (simp add: o)
  show ?thesis
    using a w f o b by (simp add: run_def exec_def [of ?s])
qed

section \<open>setCost and the access control\<close>

text \<open>
  C7. \<open>setCost\<close> called by an account other than the owner fails with the access
  control's error and leaves the state, \<open>cost\<close> included, as it was; likewise \<open>withdraw\<close>
  by such an account leaves the balance as it was. Called by the owner, \<open>setCost\<close> stores
  the new cost whatever it is, zero included, and changes nothing else.
\<close>

theorem C7_setCost:
  "(acct \<noteq> owner s \<longrightarrow>
      setCost s acct newCost = Inl Caller_is_not_the_owner \<and>
      exec s (Call_setCost acct newCost) = s \<and>
      cost (exec s (Call_setCost acct newCost)) = cost s \<and>
      withdraw s acct success = Inl Caller_is_not_the_owner \<and>
      balance (exec s (Call_withdraw acct success)) = balance s)
   \<and> setCost s (owner s) newCost = Inr (s\<lparr>cost := newCost\<rparr>)
   \<and> setCost s (owner s) 0 = Inr (s\<lparr>cost := 0\<rparr>)
   \<and> cost (exec s (Call_setCost (owner s) newCost)) = newCost"
proof -
  have A: "acct \<noteq> owner s \<longrightarrow>
      setCost s acct newCost = Inl Caller_is_not_the_owner \<and>
      exec s (Call_setCost acct newCost) = s \<and>
      cost (exec s (Call_setCost acct newCost)) = cost s \<and>
      withdraw s acct success = Inl Caller_is_not_the_owner \<and>
      balance (exec s (Call_withdraw acct success)) = balance s"
    by (simp add: setCost_not_owner withdraw_not_owner exec_def)
  have B: "\<And>c. setCost s (owner s) c = Inr (s\<lparr>cost := c\<rparr>)"
    by (simp add: setCost_Inr)
  show ?thesis using A B by (simp add: exec_def)
qed

text \<open>
  On the deployment of the tests (owner 1, unit cost 10): account 2 cannot change the
  cost, the owner sets it to 0, and a mint of 3 tokens then needs no payment.
\<close>

theorem C7_setCost_witness:
  "(2 :: address) \<noteq> owner (scenario 0)
   \<and> setCost (scenario 0) 2 0 = Inl Caller_is_not_the_owner
   \<and> cost (exec (scenario 0) (Call_setCost 2 0)) = 10
   \<and> balance (exec (scenario 0) (Call_withdraw 2 True)) = 0
   \<and> cost (exec (scenario 0) (Call_setCost 1 0)) = 0
   \<and> totalIssued (run (scenario 0) [Call_setCost 1 0, Call_mint 2 0 0 3]) = 3"
proof -
  let ?s = "scenario 0"
  have o: "owner ?s = 1" and c: "cost ?s = 10" and b: "balance ?s = 0"
    by (simp_all add: scenario_def constructor_def)
  have ne: "(2 :: address) \<noteq> owner ?s" by (simp add: o)
  note t = C7_setCost [where s = ?s and acct = 2 and newCost = 0 and success = True]
  have a: "setCost ?s 2 0 = Inl Caller_is_not_the_owner \<and> cost (exec ?s (Call_setCost 2 0)) = 10
      \<and> balance (exec ?s (Call_withdraw 2 True)) = 0"
    using t ne c b by simp
  have d: "exec ?s (Call_setCost 1 0) = ?s\<lparr>cost := 0\<rparr>"
    using t o by (simp add: exec_def)
  have m: "totalIssued (exec (?s\<lparr>cost := 0\<rparr>) (Call_mint 2 0 0 3)) = 3"
    by (simp add: ledger_eval)
  show ?thesis using ne a d m by (simp add: run_def)
qed

section \<open>The time gate\<close>

text \<open>
  C8. While the block's time is before \<open>allowMintingOn\<close> the gate is \<open>PreOpen\<close> and every
  \<open>mint\<close> is rejected with \<^verbatim>\<open>"Minting not yet allowed"\<close>. No call changes
  \<open>allowMintingOn\<close>, so the gate depends on the time alone: once \<open>Open\<close> at some time it is
  \<open>Open\<close> at every later time, whatever calls come in between. In particular, after a
  \<open>mint\<close> has succeeded at time \<open>t\<close>, the same call at any time \<open>t' \<ge> t\<close>, after any calls,
  does not fail with \<^verbatim>\<open>"Minting not yet allowed"\<close>.
\<close>

theorem C8_time_gate:
  "(gate_at s t = PreOpen \<longleftrightarrow> t < allowMintingOn s)
   \<and> (gate_at s t = PreOpen \<longrightarrow> mint s acct v t q = Inl Minting_not_yet_allowed)
   \<and> allowMintingOn (run s cs) = allowMintingOn s
   \<and> (gate_at s t = Open \<and> t \<le> t' \<longrightarrow> gate_at (run s cs) t' = Open)
   \<and> (mint s acct v t q = Inr s' \<and> t \<le> t' \<longrightarrow>
        allowMintingOn s \<le> t \<and> gate_at (run s' cs) t' = Open \<and>
        mint (run s' cs) acct v t' q \<noteq> Inl Minting_not_yet_allowed)"
proof -
  have A: "gate_at s t = PreOpen \<longleftrightarrow> t < allowMintingOn s"
    by (auto simp: gate_at_def not_le)
  have B: "gate_at s t = PreOpen \<longrightarrow> mint s acct v t q = Inl Minting_not_yet_allowed"
    using A by (simp add: mint_too_early)
  have C: "allowMintingOn (run s cs) = allowMintingOn s"
    by (rule allowMintingOn_run)
  have D: "gate_at s t = Open \<and> t \<le> t' \<longrightarrow> gate_at (run s cs) t' = Open"
    by (auto simp: gate_at_def allowMintingOn_run split: if_splits)
  have E: "mint s acct v t q = Inr s' \<and> t \<le> t' \<longrightarrow>
        allowMintingOn s \<le> t \<and> gate_at (run s' cs) t' = Open \<and>
        mint (run s' cs) acct v t' q \<noteq> Inl Minting_not_yet_allowed"
  proof (intro impI, elim conjE)
    assume ok: "mint s acct v t q = Inr s'" and le: "t \<le> t'"
    from mint_Inr [OF ok] have opn: "allowMintingOn s \<le> t"
      and s': "s' = (issue (s\<lparr>balance := balance s + v\<rparr>) acct (ids_from (totalIssued s) 1 (unat q)))
                \<lparr>events := events s @ [Mint q acct]\<rparr>"
      by simp_all
    have "allowMintingOn s' = allowMintingOn s" by (simp add: s' issue_def)
    then have later: "allowMintingOn (run s' cs) \<le> t'"
      using opn le by (simp add: allowMintingOn_run)
    have "mint (run s' cs) acct v t' q \<noteq> Inl Minting_not_yet_allowed"
      using later by (simp add: mint_not_yet_iff not_less)
    then show "allowMintingOn s \<le> t \<and> gate_at (run s' cs) t' = Open \<and>
        mint (run s' cs) acct v t' q \<noteq> Inl Minting_not_yet_allowed"
      using opn later by (simp add: gate_at_def)
  qed
  show ?thesis using A B C D E by blast
qed

text \<open>
  The spec's scenario 3 and its continuation, with minting opening at time 1000: at 999
  the gate is \<open>PreOpen\<close> and a paid mint of 3 is rejected; at 1000 the same call succeeds;
  after a withdrawal and a price change the gate is \<open>Open\<close> at time 2000 and the same
  call is not rejected for the time.
\<close>

theorem C8_time_gate_witness:
  "gate_at (scenario 1000) 999 = PreOpen
   \<and> mint (scenario 1000) 2 30 999 3 = Inl Minting_not_yet_allowed
   \<and> mint (scenario 1000) 2 30 1000 3 = Inr (exec (scenario 1000) (Call_mint 2 30 1000 3))
   \<and> (1000 :: uint256) \<le> 2000
   \<and> gate_at (run (exec (scenario 1000) (Call_mint 2 30 1000 3))
         [Call_withdraw 1 True, Call_setCost 1 50]) 2000 = Open
   \<and> mint (run (exec (scenario 1000) (Call_mint 2 30 1000 3))
         [Call_withdraw 1 True, Call_setCost 1 50]) 2 30 2000 3 \<noteq> Inl Minting_not_yet_allowed"
proof -
  let ?s = "scenario 1000" and ?s' = "exec (scenario 1000) (Call_mint 2 30 1000 3)"
  let ?cs = "[Call_withdraw 1 True, Call_setCost 1 50]"
  have pre: "gate_at ?s 999 = PreOpen"
    by (simp add: gate_at_def scenario_def constructor_def)
  have a: "mint ?s 2 30 999 3 = Inl Minting_not_yet_allowed"
    using C8_time_gate [where s = ?s and t = 999 and acct = 2 and v = 30 and q = 3] pre by blast
  have ok: "mint ?s 2 30 1000 3 = Inr ?s'"
    by (simp add: ledger_eval)
  have le: "(1000 :: uint256) \<le> 2000" by simp
  have b: "gate_at (run ?s' ?cs) 2000 = Open \<and>
      mint (run ?s' ?cs) 2 30 2000 3 \<noteq> Inl Minting_not_yet_allowed"
    using C8_time_gate [where s = ?s and t = 1000 and acct = 2 and v = 30 and q = 3
        and s' = ?s' and t' = 2000 and cs = ?cs] ok le by blast
  show ?thesis using pre a ok le b by simp
qed

section \<open>walletOfOwner\<close>

text \<open>
  C9. On a ledger \<open>s\<close> reached from a fresh deployment by any sequence of \<open>mint\<close>,
  \<open>withdraw\<close> and \<open>setCost\<close> calls, \<open>walletOfOwner\<close> does not fail and returns the
  account's enumeration: the entry at position \<open>k\<close> is \<open>tokenOfOwnerByIndex\<close> at index
  \<open>k\<close>, as many entries as \<open>balanceOf\<close> counts; its elements are exactly the ids the
  account owns, each once, in ascending order. It is a function of the ledger and the
  account that returns no ledger: it has no effect. In particular, when an account's
  mint of 3 tokens succeeds on a fresh deployment, \<open>walletOfOwner\<close> of that account
  is \<open>[1, 2, 3]\<close>.
\<close>

theorem C9_walletOfOwner:
  assumes "s = run (constructor d n sy c m t0 b) cs"
  shows "walletOfOwner s a = Inr (ownedTokens s a)
     \<and> unat (balanceOf s a) = length (ownedTokens s a)
     \<and> (\<forall>k < length (ownedTokens s a).
           tokenOfOwnerByIndex s a (word_of_nat k) = Inr (ownedTokens s a ! k))
     \<and> set (ownedTokens s a) = {tokenId. owners s tokenId = Some a}
     \<and> distinct (ownedTokens s a)
     \<and> sorted_wrt (<) (ownedTokens s a)
     \<and> (mint (constructor d n sy c m t0 b) acct v t 3 = Inr s' \<longrightarrow>
           walletOfOwner s' acct = Inr [1, 2, 3])"
proof -
  have inv: "ledger_inv s"
    unfolding assms by (rule ledger_inv_reachable)
  have "length (ownedTokens s a) \<le> unat (totalIssued s)"
    using inv by (simp add: ledger_inv_def)
  then have len: "length (ownedTokens s a) < 2 ^ 256"
    using unat_lt_2p256 [of "totalIssued s"] by simp
  have A: "walletOfOwner s a = Inr (ownedTokens s a)"
    by (rule walletOfOwner_reachable [OF inv])
  have B: "unat (balanceOf s a) = length (ownedTokens s a)"
    using len by (simp add: balanceOf_def unat_of_nat_small)
  have C: "\<forall>k < length (ownedTokens s a).
           tokenOfOwnerByIndex s a (word_of_nat k) = Inr (ownedTokens s a ! k)"
    using tokenOfOwnerByIndex_nth [OF len] by blast
  have D: "set (ownedTokens s a) = {tokenId. owners s tokenId = Some a}"
    using inv by (simp add: ledger_inv_def)
  have F: "sorted_wrt (<) (ownedTokens s a)"
    using inv by (simp add: ledger_inv_def)
  then have E: "distinct (ownedTokens s a)"
    by (simp add: strict_sorted_iff)
  have G: "mint (constructor d n sy c m t0 b) acct v t 3 = Inr s' \<longrightarrow>
           walletOfOwner s' acct = Inr [1, 2, 3]"
  proof
    let ?s0 = "constructor d n sy c m t0 b"
    assume ok: "mint ?s0 acct v t 3 = Inr s'"
    have "ledger_inv s'"
      by (rule ledger_inv_mint [OF ledger_inv_constructor ok])
    then have w: "walletOfOwner s' acct = Inr (ownedTokens s' acct)"
      by (rule walletOfOwner_reachable)
    from mint_Inr [OF ok] have
      "s' = (issue (?s0\<lparr>balance := balance ?s0 + v\<rparr>) acct (ids_from (totalIssued ?s0) 1 (unat (3 :: uint256))))
                \<lparr>events := events ?s0 @ [Mint 3 acct]\<rparr>"
      by simp
    then have "ownedTokens s' acct = ids_from 0 1 3"
      by (simp add: issue_def constructor_def)
    also have "\<dots> = [1, 2, 3]"
      by (simp add: ids_from_def upt_rec)
    finally show "walletOfOwner s' acct = Inr [1, 2, 3]"
      using w by simp
  qed
  show ?thesis using A B C D E F G by blast
qed

text \<open>
  The repository's test "returns all the NFTs for a given owner": account 2 mints 3
  tokens on the fresh deployment and its wallet is \<open>[1, 2, 3]\<close>. With two accounts
  minting in turn, each wallet lists that account's ids in ascending order, and an
  account that never minted has an empty wallet.
\<close>

theorem C9_walletOfOwner_witness:
  "mint (scenario 0) 2 30 0 3 = Inr (exec (scenario 0) (Call_mint 2 30 0 3))
   \<and> walletOfOwner (exec (scenario 0) (Call_mint 2 30 0 3)) 2 = Inr [1, 2, 3]
   \<and> walletOfOwner (run (scenario 0) [Call_mint 2 10 0 1, Call_mint 3 20 0 2, Call_mint 2 10 0 1]) 2
        = Inr [1, 4]
   \<and> walletOfOwner (run (scenario 0) [Call_mint 2 10 0 1, Call_mint 3 20 0 2, Call_mint 2 10 0 1]) 3
        = Inr [2, 3]
   \<and> walletOfOwner (run (scenario 0) [Call_mint 2 10 0 1, Call_mint 3 20 0 2, Call_mint 2 10 0 1]) 7
        = Inr []
   \<and> tokenOfOwnerByIndex
        (run (scenario 0) [Call_mint 2 10 0 1, Call_mint 3 20 0 2, Call_mint 2 10 0 1]) 2 1 = Inr 4"
proof -
  let ?cs = "[Call_mint 2 10 0 1, Call_mint 3 20 0 2, Call_mint 2 10 0 1]"
  let ?r = "run (scenario 0) ?cs"
  have ok: "mint (scenario 0) 2 30 0 3 = Inr (exec (scenario 0) (Call_mint 2 30 0 3))"
    by (simp add: ledger_eval)
  have a: "walletOfOwner (exec (scenario 0) (Call_mint 2 30 0 3)) 2 = Inr [1, 2, 3]"
    using C9_walletOfOwner [where cs = "[]" and s' = "exec (scenario 0) (Call_mint 2 30 0 3)"
        and acct = 2 and v = 30 and t = 0, OF refl] ok
    unfolding scenario_def by blast
  have o2: "ownedTokens ?r 2 = [1, 4]" and o3: "ownedTokens ?r 3 = [2, 3]" and o7: "ownedTokens ?r 7 = []"
    by (simp_all add: run_def ledger_eval)
  note t = C9_walletOfOwner [where s = ?r and cs = ?cs, unfolded scenario_def, OF refl,
      folded scenario_def]
  have b: "walletOfOwner ?r 2 = Inr [1, 4]" "walletOfOwner ?r 3 = Inr [2, 3]" "walletOfOwner ?r 7 = Inr []"
    using t [of 2] t [of 3] t [of 7] by (simp_all add: o2 o3 o7)
  have lt: "Suc 0 < length (ownedTokens ?r 2)"
    by (simp add: o2)
  have "\<forall>k < length (ownedTokens ?r 2).
      tokenOfOwnerByIndex ?r 2 (word_of_nat k) = Inr (ownedTokens ?r 2 ! k)"
    using t [of 2] by blast
  then have "tokenOfOwnerByIndex ?r 2 (word_of_nat (Suc 0)) = Inr (ownedTokens ?r 2 ! Suc 0)"
    using lt by blast
  then have c: "tokenOfOwnerByIndex ?r 2 1 = Inr 4"
    unfolding o2 by simp
  show ?thesis using ok a b c by simp
qed

section \<open>No wrap-around in the payment check\<close>

text \<open>
  C10. The product \<open>cost * _mintAmount\<close> of the payment check is a checked 256-bit
  multiplication: whenever the exact product exceeds \<open>2 ^ 256 - 1\<close> the call fails (with
  the arithmetic panic once the time gate is open, with the time check's error before)
  and changes nothing, so no token is issued. Hence every successful \<open>mint\<close> was paid at
  least the exact product of unit cost and quantity, as natural numbers.
\<close>

theorem C10_no_wraparound:
  "(2 ^ 256 \<le> unat (cost s) * unat q \<longrightarrow>
      (\<exists>e. mint s acct v t q = Inl e) \<and> exec s (Call_mint acct v t q) = s)
   \<and> (2 ^ 256 \<le> unat (cost s) * unat q \<and> allowMintingOn s \<le> t \<longrightarrow>
        mint s acct v t q = Inl Panic_overflow)
   \<and> (mint s acct v t q = Inr s' \<longrightarrow> unat (cost s) * unat q \<le> unat v)"
proof -
  have A: "2 ^ 256 \<le> unat (cost s) * unat q \<longrightarrow>
      (\<exists>e. mint s acct v t q = Inl e) \<and> exec s (Call_mint acct v t q) = s"
  proof
    assume big: "2 ^ 256 \<le> unat (cost s) * unat q"
    then have "unat v < unat (cost s) * unat q"
      using unat_lt_2p256 [of v] by simp
    then show "(\<exists>e. mint s acct v t q = Inl e) \<and> exec s (Call_mint acct v t q) = s"
      using mint_underpaid_fails [of v s q acct t] exec_mint_failed [of s acct v t q] by blast
  qed
  have B: "2 ^ 256 \<le> unat (cost s) * unat q \<and> allowMintingOn s \<le> t \<longrightarrow>
        mint s acct v t q = Inl Panic_overflow"
  proof (intro impI, elim conjE)
    assume big: "2 ^ 256 \<le> unat (cost s) * unat q" and t: "allowMintingOn s \<le> t"
    have "unat q \<noteq> 0" using big by (cases "unat q = 0") simp_all
    then have "0 < q" by (simp add: word_less_nat_alt)
    then show "mint s acct v t q = Inl Panic_overflow"
      using mint_mul_overflow [OF t, of q acct v] big by simp
  qed
  have C: "mint s acct v t q = Inr s' \<longrightarrow> unat (cost s) * unat q \<le> unat v"
    using mint_Inr [of s acct v t q s'] by blast
  show ?thesis using A B C by blast
qed

text \<open>
  With a unit cost of \<open>2 ^ 255\<close> and a quantity of 2 the wrapped product is 0, which a
  payment of 0 would cover; the call panics instead. On the deployment of the tests a
  successful mint of 3 tokens at unit cost 10 was paid 30.
\<close>

theorem C10_no_wraparound_witness:
  "(2 :: nat) ^ 256 \<le> unat (cost ((scenario 1000)\<lparr>cost := 2 ^ 255\<rparr>)) * unat (2 :: uint256)
   \<and> cost ((scenario 1000)\<lparr>cost := 2 ^ 255\<rparr>) * 2 = 0
   \<and> mint ((scenario 1000)\<lparr>cost := 2 ^ 255\<rparr>) 2 0 1000 2 = Inl Panic_overflow
   \<and> exec ((scenario 1000)\<lparr>cost := 2 ^ 255\<rparr>) (Call_mint 2 0 1000 2) = (scenario 1000)\<lparr>cost := 2 ^ 255\<rparr>
   \<and> mint (scenario 1000) 2 30 1000 3 = Inr (exec (scenario 1000) (Call_mint 2 30 1000 3))
   \<and> unat (cost (scenario 1000)) * unat (3 :: uint256) \<le> unat (30 :: uint256)"
proof -
  let ?s = "scenario 1000" and ?b = "(scenario 1000)\<lparr>cost := 2 ^ 255\<rparr>"
  have h: "(2 :: nat) ^ 256 \<le> unat (cost ?b) * unat (2 :: uint256) \<and> cost ?b * 2 = 0"
    by (simp add: scenario_def constructor_def)
  have a: "mint ?b 2 0 1000 2 = Inl Panic_overflow \<and> exec ?b (Call_mint 2 0 1000 2) = ?b"
    using C10_no_wraparound [where s = ?b and acct = 2 and v = 0 and t = 1000 and q = 2]
    by (simp add: scenario_def constructor_def)
  have ok: "mint ?s 2 30 1000 3 = Inr (exec ?s (Call_mint 2 30 1000 3))"
    by (simp add: exec_def scenario_def constructor_def mint_def checked_mul_def checked_add_def
          totalSupply_def Let_def mint_loop.simps safeMint_def exists_def)
  have b: "unat (cost ?s) * unat (3 :: uint256) \<le> unat (30 :: uint256)"
    using C10_no_wraparound [where s = ?s and acct = 2 and v = 30 and t = 1000 and q = 3
        and s' = "exec ?s (Call_mint 2 30 1000 3)"] ok by blast
  show ?thesis using h a ok b by simp
qed

end
